theory Spec2Isabelle
  imports Complex_Main "HOL-Library.Sublist" "HOL-Library.AList" "HOL-Library.Multiset"
begin

section \<open>Episode data (types/api: VideoPathItem, CDNItem, Chapter)\<close>

text \<open>
  The records follow the TypeScript interfaces (the declarations are found at the end
  of \<open>src/src/api/dramaboxHelperWithLogging.ts\<close>). Numbers that the code only compares
  and copies are integers. A property that an object may lack is an \<open>option\<close>.
  \<open>cdnList\<close> and \<open>videoPathList\<close> are lists, as declared; the code treats a missing
  list (\<open>!chapter.cdnList\<close>, \<open>!cdn.videoPathList\<close>) as it treats an empty one.
  \<open>CDNItem.isDefault\<close> is written \<open>cdnIsDefault\<close>, since \<open>VideoPathItem\<close> has a
  field of the same name.
\<close>

record VideoPathItem =
  quality :: int
  videoPath :: string
  isDefault :: int
  isEntry :: int
  isVipEquity :: int

record CDNItem =
  cdnDomain :: "string option"
  cdnIsDefault :: int
  videoPathList :: "VideoPathItem list"
  name :: "string option"
  url :: "string option"

text \<open>
  \<open>Chapter\<close>, with the two properties that the merge of \<open>MovieDetail.fetchDramaData\<close>
  adds to a chapter object (\<open>isPay\<close>, \<open>chapterSizeVoList\<close>); a chapter that comes
  from the chapter listing has neither. The entries of the size list are opaque
  (\<open>'s\<close>); \<open>senseRightsLoadInfo\<close> is kept as its \<open>desc\<close>.
\<close>

record 's Chapter =
  chapterId :: string
  chapterIndex :: int
  isCharge :: int
  chapterName :: string
  cdnList :: "CDNItem list"
  chapterImg :: string
  chapterType :: int
  senseRightsLoadInfo :: string
  viewingDuration :: int
  chargeChapter :: bool
  isPay :: "int option"
  chapterSizeVoList :: "'s list option"

text \<open>
  An entry of the detail listing (\<open>detailData.list\<close>, typed \<open>any\<close> in the source). The
  merge reads four properties of it; \<open>isPay\<close> and \<open>chapterSizeVoList\<close> are read with a
  default (\<open>|| 0\<close>, \<open>|| []\<close>), so they may be missing.
\<close>

record 's DetailEpisode =
  detailChapterIndex :: int
  detailIsCharge :: int
  detailIsPay :: "int option"
  detailChapterSizeVoList :: "'s list option"

section \<open>Selecting a playable URL (src/src/components/MovieDetail.tsx: getBestVideoUrl)\<close>

text \<open>
  The body of the \<open>for (const cdn of chapter.cdnList)\<close> loop for one CDN entry:
  \<open>Some u\<close> is \<open>return u\<close>, \<open>None\<close> is going on with the next entry (the
  \<open>continue\<close>, or falling out of the last \<open>if\<close>). \<open>Array.find\<close> is \<open>find\<close>; a
  found variant is an object, hence truthy.
\<close>

definition cdnVideoUrl :: "CDNItem \<Rightarrow> string option" where
  "cdnVideoUrl cdn =
     (if videoPathList cdn = [] then None
      else
        (case find (\<lambda>v. isDefault v = 1 \<and> isVipEquity v = 0) (videoPathList cdn) of
           Some nonVipDefault \<Rightarrow> Some (videoPath nonVipDefault)
         | None \<Rightarrow>
            (case find (\<lambda>v. isVipEquity v = 0) (videoPathList cdn) of
               Some nonVip \<Rightarrow> Some (videoPath nonVip)
             | None \<Rightarrow>
                (case videoPathList cdn of
                   v # _ \<Rightarrow> Some (videoPath v)
                 | [] \<Rightarrow> None))))"

fun bestVideoUrlFrom :: "CDNItem list \<Rightarrow> string option" where
  "bestVideoUrlFrom [] = None"
| "bestVideoUrlFrom (cdn # rest) =
     (case cdnVideoUrl cdn of
        Some u \<Rightarrow> Some u
      | None \<Rightarrow> bestVideoUrlFrom rest)"

definition getBestVideoUrl :: "'s Chapter \<Rightarrow> string option" where
  "getBestVideoUrl chapter =
     (if cdnList chapter = [] then None else bestVideoUrlFrom (cdnList chapter))"

definition exampleVariantA :: VideoPathItem where
  "exampleVariantA =
     \<lparr>quality = 540, videoPath = ''a'', isDefault = 0, isEntry = 0, isVipEquity = 1\<rparr>"

definition exampleVariantB :: VideoPathItem where
  "exampleVariantB =
     \<lparr>quality = 720, videoPath = ''b'', isDefault = 1, isEntry = 0, isVipEquity = 0\<rparr>"

definition exampleCdn :: CDNItem where
  "exampleCdn =
     \<lparr>cdnDomain = None, cdnIsDefault = 1,
      videoPathList = [exampleVariantA, exampleVariantB], name = None, url = None\<rparr>"

definition exampleChapter :: "'s Chapter" where
  "exampleChapter =
     \<lparr>chapterId = ''c1'', chapterIndex = 0, isCharge = 0, chapterName = ''EP 1'',
      cdnList = [exampleCdn],
      chapterImg = [], chapterType = 0, senseRightsLoadInfo = [],
      viewingDuration = 0, chargeChapter = False, isPay = None,
      chapterSizeVoList = None\<rparr>"

section \<open>Merging detail metadata into the chapter list (src/src/components/MovieDetail.tsx: fetchDramaData)\<close>

text \<open>
  The callback of \<open>chaptersData.map((chapter, index) => ...)\<close>. \<open>detailEpisodes[index]\<close>
  is \<open>undefined\<close> beyond the end of the list, and an entry present is an object. On a
  number \<open>x || 0\<close> is \<open>x\<close>; on a missing property it is \<open>0\<close>; an array is truthy even
  when empty.
\<close>

definition mergeChapter :: "'s DetailEpisode list \<Rightarrow> nat \<Rightarrow> 's Chapter \<Rightarrow> 's Chapter" where
  "mergeChapter detailEpisodes index chapter =
     (if index < length detailEpisodes then
        (let detailEpisode = detailEpisodes ! index in
         chapter\<lparr>chapterIndex := detailChapterIndex detailEpisode,
                 isCharge := detailIsCharge detailEpisode,
                 isPay := Some (case detailIsPay detailEpisode of
                                  Some p \<Rightarrow> (if p = 0 then 0 else p)
                                | None \<Rightarrow> 0),
                 chapterSizeVoList := Some (case detailChapterSizeVoList detailEpisode of
                                              Some l \<Rightarrow> l
                                            | None \<Rightarrow> [])\<rparr>)
      else chapter)"

definition mergeChapters :: "'s Chapter list \<Rightarrow> 's DetailEpisode list \<Rightarrow> 's Chapter list" where
  "mergeChapters chaptersData detailEpisodes =
     map (\<lambda>(index, chapter). mergeChapter detailEpisodes index chapter)
       (enumerate 0 chaptersData)"


definition exampleDetailNoPay :: "'s DetailEpisode" where
  "exampleDetailNoPay =
     \<lparr>detailChapterIndex = 7, detailIsCharge = 1, detailIsPay = None,
      detailChapterSizeVoList = None\<rparr>"

section \<open>Paginated fetch (src/src/api/chapter.ts: getChapters, getAllChapters)\<close>

text \<open>
  \<open>apiRequest\<close> is the HTTP client; it is a parameter \<open>api\<close> of the model: for the
  request with \<open>index = startIndex\<close> it either throws (\<open>Inl\<close> the message) or returns
  the response, of which the code reads \<open>data?.data?.chapterList\<close> (\<open>None\<close> when the
  response has no such list). Each page is requested at most once in a run, so a
  function of the index describes every sequence of outcomes. The chapters of a page
  are opaque here (\<open>'c\<close>).
\<close>

datatype error = BookIdRequired | RequestFailed string

type_synonym 'c api = "nat \<Rightarrow> string + 'c list option"

definition getChapters :: "'c api \<Rightarrow> string \<Rightarrow> nat \<Rightarrow> error + 'c list" where
  "getChapters api bookId startIndex =
     (if bookId = [] then Inl BookIdRequired
      else
        (case api startIndex of
           Inl msg \<Rightarrow> Inl (RequestFailed msg)
         | Inr chapterList \<Rightarrow> Inr (case chapterList of Some cs \<Rightarrow> cs | None \<Rightarrow> [])))"

text \<open>
  What a run of \<open>getAllChapters\<close> does besides returning: \<open>Fetch page startIndex\<close> is
  the call \<open>getChapters(bookId, false, startIndex)\<close> made for \<open>page\<close>,
  \<open>ConsoleError page e\<close> is the \<open>console.error\<close> of the \<open>catch\<close> block, \<open>Delay ms\<close> is
  the pause between pages. The informational \<open>console.log\<close>/\<open>console.debug\<close> lines
  decide nothing and are left out.
\<close>

datatype event = Fetch nat nat | ConsoleError nat error | Delay nat

text \<open>The cursor of a page: \<open>const startIndex = 1 + (page - 1) * 6\<close>.\<close>

definition startIndexOf :: "nat \<Rightarrow> nat" where
  "startIndexOf page = 1 + (page - 1) * 6"

text \<open>
  The \<open>for (let page = 1; page <= totalPages; page++)\<close> loop, from \<open>page\<close> on, with the
  accumulator \<open>allChapters\<close> and the events so far.
\<close>

function pageLoop ::
  "'c api \<Rightarrow> string \<Rightarrow> nat \<Rightarrow> nat \<Rightarrow> 'c list \<Rightarrow> event list \<Rightarrow> event list \<times> 'c list" where
  "pageLoop api bookId totalPages page allChapters evs =
     (if page \<le> totalPages then
        (let startIndex = startIndexOf page in
         (case getChapters api bookId startIndex of
            Inr chapters \<Rightarrow>
              (if length chapters > 0 then
                 pageLoop api bookId totalPages (page + 1) (allChapters @ chapters)
                   (evs @ [Fetch page startIndex] @
                      (if page < totalPages then [Delay 100] else []))
               else (evs @ [Fetch page startIndex], allChapters))
          | Inl e \<Rightarrow>
              pageLoop api bookId totalPages (page + 1) allChapters
                (evs @ [Fetch page startIndex, ConsoleError page e])))
      else (evs, allChapters))"
  by pat_completeness auto
termination
  by (relation "measure (\<lambda>(api, bookId, totalPages, page, allChapters, evs).
        Suc totalPages - page)") auto

text \<open>
  \<open>Math.ceil(totalEpisodes / 6)\<close> on a count of episodes.
\<close>

definition totalPagesOf :: "nat \<Rightarrow> nat" where
  "totalPagesOf totalEpisodes = nat \<lceil>real totalEpisodes / 6\<rceil>"

definition getAllChapters :: "'c api \<Rightarrow> string \<Rightarrow> nat \<Rightarrow> event list \<times> (error + 'c list)" where
  "getAllChapters api bookId totalEpisodes =
     (if bookId = [] then ([], Inl BookIdRequired)
      else
        (let totalPages = totalPagesOf totalEpisodes;
             (evs, allChapters) = pageLoop api bookId totalPages 1 [] []
         in (evs, Inr allChapters)))"

text \<open>Reading a run: the pages fetched, in the order of the calls.\<close>

definition pagesOf :: "event list \<Rightarrow> nat list" where
  "pagesOf evs = List.map_filter (\<lambda>e. case e of Fetch page _ \<Rightarrow> Some page | _ \<Rightarrow> None) evs"

text \<open>
  The pages \<open>first .. totalPages\<close> up to and including the first one whose fetch returns
  no item.
\<close>

definition pagesUntilEmpty :: "'c api \<Rightarrow> string \<Rightarrow> nat \<Rightarrow> nat \<Rightarrow> nat list" where
  "pagesUntilEmpty api bookId first totalPages =
     (case find (\<lambda>p. getChapters api bookId (startIndexOf p) = Inr [])
             [first..<Suc totalPages] of
        None \<Rightarrow> [first..<Suc totalPages]
      | Some k \<Rightarrow> [first..<Suc k])"

definition pageItems :: "'c api \<Rightarrow> string \<Rightarrow> nat \<Rightarrow> 'c list" where
  "pageItems api bookId page =
     (case getChapters api bookId (startIndexOf page) of Inr cs \<Rightarrow> cs | Inl _ \<Rightarrow> [])"

definition pageEvents :: "'c api \<Rightarrow> string \<Rightarrow> nat \<Rightarrow> nat \<Rightarrow> event list" where
  "pageEvents api bookId totalPages page =
     Fetch page (startIndexOf page) #
       (case getChapters api bookId (startIndexOf page) of
          Inl e \<Rightarrow> [ConsoleError page e]
        | Inr cs \<Rightarrow> (if cs \<noteq> [] \<and> page < totalPages then [Delay 100] else []))"

text \<open>A client whose page at index \<open>i\<close> holds the six episode numbers from \<open>i\<close> on.\<close>

definition exampleApi :: "nat api" where
  "exampleApi i = Inr (Some [i ..< i + 6])"

text \<open>The same client, whose second page (index \<open>7\<close>) holds no item.\<close>

definition shortApi :: "nat api" where
  "shortApi i = (if i = 7 then Inr (Some []) else Inr (Some [i ..< i + 6]))"

text \<open>The same client, whose request for the second page fails.\<close>

definition flakyApi :: "nat api" where
  "flakyApi i = (if i = 7 then Inl ''timeout'' else Inr (Some [i ..< i + 6]))"

section \<open>Durable sink buffer (src/src/utils/logger.ts: Logger.processLog, Logger.flushLogs)\<close>

text \<open>
  \<open>LogLevel\<close>, in the order of the enum; \<open>level >= this.config.logLevel\<close> compares the
  numbers of the enum.
\<close>

datatype LogLevel = DEBUG | INFO | WARN | ERROR | FATAL

fun levelRank :: "LogLevel \<Rightarrow> nat" where
  "levelRank DEBUG = 0"
| "levelRank INFO = 1"
| "levelRank WARN = 2"
| "levelRank ERROR = 3"
| "levelRank FATAL = 4"

text \<open>
  A \<open>LogEntry\<close>: of its properties the buffer code reads none; the model keeps the level
  and the message.
\<close>

record LogEntry =
  level :: LogLevel
  message :: string

text \<open>
  The state of a \<open>Logger\<close>. \<open>flushes\<close> holds one frame for each invocation of
  \<open>flushLogs\<close> that got past its first line: the local \<open>logsToFlush\<close> and the number of
  its entries for which the \<open>for\<close> loop has called \<open>writeToFile\<close> so far. \<open>writeCalls\<close>
  are the arguments of the calls of \<open>writeToFile\<close>, in the order of the calls. A call of
  \<open>writeToFile\<close> runs, in the turn of the caller, as far as its own first suspension:
  on a server that is through \<open>writeToFileServer\<close> up to \<open>fs.appendFileSync\<close>, or up to
  the \<open>await\<close> of the rotation when the file has outgrown \<open>maxFileSize\<close> (the append then
  follows in a later turn); an exception of the file system is caught and reported on
  the console, so the call never throws. The promise it returns is what the loop of
  \<open>flushLogs\<close> awaits.
\<close>

record Logger =
  logLevel :: LogLevel
  isServer :: bool
  enableFileLogging :: bool
  enableConsoleLogging :: bool
  logBuffer :: "LogEntry list"
  flushes :: "(LogEntry list \<times> nat) list"
  writeCalls :: "LogEntry list"
  consoleOut :: "LogEntry list"

text \<open>
  The constructor: file logging is switched off outside a server.
\<close>

definition newLogger :: "LogLevel \<Rightarrow> bool \<Rightarrow> bool \<Rightarrow> bool \<Rightarrow> Logger" where
  "newLogger lvl server fileLogging consoleLogging =
     \<lparr>logLevel = lvl, isServer = server,
      enableFileLogging = (if \<not> server then False else fileLogging),
      enableConsoleLogging = consoleLogging,
      logBuffer = [], flushes = [], writeCalls = [], consoleOut = []\<rparr>"

definition shouldLog :: "Logger \<Rightarrow> LogLevel \<Rightarrow> bool" where
  "shouldLog lg lvl = (levelRank lvl \<ge> levelRank (logLevel lg))"

definition logToConsole :: "LogEntry \<Rightarrow> Logger \<Rightarrow> Logger" where
  "logToConsole entry lg =
     (if \<not> enableConsoleLogging lg then lg else lg\<lparr>consoleOut := consoleOut lg @ [entry]\<rparr>)"

text \<open>
  One iteration of \<open>for (const entry of logsToFlush) await this.writeToFile(entry)\<close> in
  the \<open>k\<close>-th frame: the call of \<open>writeToFile\<close> for the next entry of the snapshot, after
  which the loop is suspended at the \<open>await\<close>. A frame whose loop has ended does nothing
  more.
\<close>

definition resumeFlush :: "nat \<Rightarrow> Logger \<Rightarrow> Logger" where
  "resumeFlush k lg =
     (if k < length (flushes lg) then
        (let (logsToFlush, i) = flushes lg ! k
         in if i < length logsToFlush
            then lg\<lparr>writeCalls := writeCalls lg @ [logsToFlush ! i],
                    flushes := (flushes lg)[k := (logsToFlush, i + 1)]\<rparr>
            else lg)
      else lg)"

text \<open>
  The two statements \<open>const logsToFlush = [...this.logBuffer]; this.logBuffer = [];\<close> of
  \<open>flushLogs\<close>: a new frame whose loop has not begun.
\<close>

definition snapshotAndClear :: "Logger \<Rightarrow> Logger" where
  "snapshotAndClear lg =
     (let logsToFlush = logBuffer lg
      in lg\<lparr>logBuffer := [], flushes := flushes lg @ [(logsToFlush, 0)]\<rparr>)"

text \<open>
  \<open>flushLogs\<close> up to its first suspension: the early return on an empty buffer, then
  the snapshot and the reset of the buffer, then the first iteration of the \<open>for\<close> loop,
  whose call \<open>this.writeToFile(entry)\<close> is made in the same turn; the function is
  suspended at the \<open>await\<close> of that call. Every later iteration is a step of its own
  (\<open>resumeFlush\<close>), which allows every interleaving that the event loop allows.
\<close>

definition flushLogs :: "Logger \<Rightarrow> Logger" where
  "flushLogs lg =
     (if length (logBuffer lg) = 0 then lg
      else resumeFlush (length (flushes lg)) (snapshotAndClear lg))"

text \<open>
  \<open>processLog\<close>, up to its suspension. For an ERROR or FATAL entry that is the
  suspension of the \<open>flushLogs\<close> it calls, after the first call of \<open>writeToFile\<close>; that
  flush goes on as a frame of \<open>flushes\<close>.
\<close>

definition processLog :: "LogLevel \<Rightarrow> string \<Rightarrow> Logger \<Rightarrow> Logger" where
  "processLog lvl msg lg =
     (if \<not> shouldLog lg lvl then lg
      else
        (let entry = \<lparr>level = lvl, message = msg\<rparr>;
             lg1 = logToConsole entry lg
         in if isServer lg1 \<and> enableFileLogging lg1 then
              (let lg2 = lg1\<lparr>logBuffer := logBuffer lg1 @ [entry]\<rparr>
               in if levelRank lvl \<ge> levelRank ERROR then flushLogs lg2 else lg2)
            else lg1))"

text \<open>
  What the event loop can run next: a call of \<open>processLog\<close> (through \<open>debug\<close>, \<open>info\<close>,
  \<open>warn\<close>, \<open>error\<close>, \<open>fatal\<close>), the 5-second timer's \<open>flushLogs()\<close>, or the continuation
  of a suspended flush. A run is any sequence of these.
\<close>

datatype action = Log LogLevel string | Timer | Resume nat

fun step :: "action \<Rightarrow> Logger \<Rightarrow> Logger" where
  "step (Log lvl msg) lg = processLog lvl msg lg"
| "step Timer lg = flushLogs lg"
| "step (Resume k) lg = resumeFlush k lg"

definition run :: "action list \<Rightarrow> Logger \<Rightarrow> Logger" where
  "run acts lg = fold step acts lg"

text \<open>
  The entries that a sequence of actions pushes on the buffer of a logger configured as
  \<open>lg\<close>, in the order pushed.
\<close>

definition pushedBy :: "Logger \<Rightarrow> action list \<Rightarrow> LogEntry list" where
  "pushedBy lg acts =
     List.map_filter
       (\<lambda>a. case a of
              Log lvl msg \<Rightarrow>
                (if shouldLog lg lvl \<and> isServer lg \<and> enableFileLogging lg
                 then Some \<lparr>level = lvl, message = msg\<rparr> else None)
            | _ \<Rightarrow> None)
       acts"

text \<open>The entries of a frame for which \<open>writeToFile\<close> has been called.\<close>

definition handedOver :: "LogEntry list \<times> nat \<Rightarrow> LogEntry list" where
  "handedOver fr = take (snd fr) (fst fr)"

text \<open>
  A run in which an INFO entry arrives while the flush started by an ERROR entry is
  suspended, and the timer fires before that flush has ended.
\<close>

definition exampleRun :: "action list" where
  "exampleRun =
     [Log INFO ''a'', Log ERROR ''b'', Log INFO ''c'', Timer, Resume 0, Resume 1, Resume 0]"

text \<open>Two loggers with the same configuration, as far as the buffer code reads it.\<close>

definition sameConfig :: "Logger \<Rightarrow> Logger \<Rightarrow> bool" where
  "sameConfig a b =
     (logLevel a = logLevel b \<and> isServer a = isServer b \<and>
      enableFileLogging a = enableFileLogging b)"

text \<open>
  The frames are sound: no loop has run past the end of its snapshot, and the
  arguments of the calls of \<open>writeToFile\<close> are, counted with repetitions, the entries
  that the loops of the frames have passed.
\<close>

definition framesOk :: "Logger \<Rightarrow> bool" where
  "framesOk lg =
     ((\<forall>fr\<in>set (flushes lg). snd fr \<le> length (fst fr)) \<and>
      mset (writeCalls lg) = mset (concat (map handedOver (flushes lg))))"

section \<open>Payloads: JavaScript values on a heap\<close>

text \<open>
  A payload is a JavaScript value: a primitive, or a reference to an object or an array.
  Objects and arrays live on a heap, so that two references can name the same object
  and a structure can contain itself. The heap is the list of the objects allocated so
  far; an address is a position in it, and allocating appends. An object is the list
  of its own enumerable properties in the order of \<open>Object.entries\<close>.
\<close>

datatype val = VUndefined | VNull | VBool bool | VNum int | VStr string | VRef nat

datatype hobj = Arr "val list" | Obj "(string \<times> val) list"

type_synonym heap = "hobj list"

definition lookup :: "heap \<Rightarrow> nat \<Rightarrow> hobj option" where
  "lookup h a = (if a < length h then Some (h ! a) else None)"

text \<open>Truthiness (\<open>!data\<close>, \<open>value && ...\<close>): every object is truthy.\<close>

fun truthy :: "val \<Rightarrow> bool" where
  "truthy VUndefined = False"
| "truthy VNull = False"
| "truthy (VBool b) = b"
| "truthy (VNum n) = (n \<noteq> 0)"
| "truthy (VStr s) = (s \<noteq> [])"
| "truthy (VRef a) = True"

text \<open>\<open>value && typeof value === 'object'\<close>: an object or an array, not \<open>null\<close>.\<close>

fun isObject :: "val \<Rightarrow> bool" where
  "isObject (VRef a) = True"
| "isObject _ = False"

text \<open>
  Every reference of a value, of an object and of a heap points into the heap: what
  holds of the values that a JavaScript program can build.
\<close>

fun wfVal :: "heap \<Rightarrow> val \<Rightarrow> bool" where
  "wfVal h (VRef a) = (a < length h)"
| "wfVal h _ = True"

fun valuesOf :: "hobj \<Rightarrow> val list" where
  "valuesOf (Arr items) = items"
| "valuesOf (Obj entries) = map snd entries"

definition wfHeap :: "heap \<Rightarrow> bool" where
  "wfHeap h = list_all (\<lambda>ob. list_all (wfVal h) (valuesOf ob)) h"

section \<open>Redaction (src/src/api/download.ts: ApiLogger.sanitizeData)\<close>

text \<open>
  \<open>apiLoggingSettings.sensitiveDataPatterns\<close>: seven regular expressions, each a
  lower-case word with the flag \<open>i\<close>. \<open>pattern.test(key)\<close> then holds when the word
  occurs in the key, letter case aside.
\<close>

definition sensitiveDataPatterns :: "string list" where
  "sensitiveDataPatterns =
     [''password'', ''token'', ''secret'', ''key'', ''authorization'', ''cookie'', ''session'']"

definition lowerChar :: "char \<Rightarrow> char" where
  "lowerChar c =
     (case map_of (zip ''ABCDEFGHIJKLMNOPQRSTUVWXYZ'' ''abcdefghijklmnopqrstuvwxyz'') c of
        Some l \<Rightarrow> l
      | None \<Rightarrow> c)"

fun occursIn :: "string \<Rightarrow> string \<Rightarrow> bool" where
  "occursIn pat [] = (pat = [])"
| "occursIn pat (c # cs) = (prefix pat (c # cs) \<or> occursIn pat cs)"

definition regexTest :: "string \<Rightarrow> string \<Rightarrow> bool" where
  "regexTest pat key = occursIn pat (map lowerChar key)"

definition isSensitive :: "string \<Rightarrow> bool" where
  "isSensitive key = list_ex (\<lambda>pat. regexTest pat key) sensitiveDataPatterns"

text \<open>
  The assignment \<open>result[key] = v\<close> on the plain object \<open>result\<close> that the loop fills, as
  it shows in the own properties of \<open>result\<close>. The key \<open>__proto__\<close> names the accessor
  that \<open>result\<close> inherits from \<open>Object.prototype\<close>: the assignment runs its setter, which
  replaces the prototype of \<open>result\<close> (given an object or \<open>null\<close>) or does nothing, and
  adds no own property. Every other key becomes an own property holding \<open>v\<close>; the keys
  of \<open>Object.entries\<close> are pairwise different, so none is assigned twice.
\<close>

definition setProperty :: "string \<Rightarrow> val \<Rightarrow> (string \<times> val) list \<Rightarrow> (string \<times> val) list" where
  "setProperty key v result = (if key = ''__proto__'' then result else (key, v) # result)"

text \<open>
  \<open>sanitizeRecursive\<close>, with the heap passed along. \<open>sanitizeItems\<close> is
  \<open>obj.map(item => sanitizeRecursive(item, depth + 1))\<close>; \<open>sanitizeEntries\<close> is the
  \<open>for (const [key, value] of Object.entries(obj))\<close> loop that fills \<open>result\<close>: the
  properties assigned for the entries that follow are the argument of \<open>setProperty\<close>,
  so that the own properties of \<open>result\<close> come out in the order assigned. The new array
  or object enters the heap when it is complete; nothing can refer to it before. No
  equation changes an object of the heap it is given: the source assigns to \<open>result\<close>
  only.
\<close>

function sanitizeRecursive :: "heap \<Rightarrow> val \<Rightarrow> nat \<Rightarrow> val \<times> heap"
  and sanitizeItems :: "heap \<Rightarrow> val list \<Rightarrow> nat \<Rightarrow> val list \<times> heap"
  and sanitizeEntries :: "heap \<Rightarrow> (string \<times> val) list \<Rightarrow> nat \<Rightarrow> (string \<times> val) list \<times> heap"
  where
  "sanitizeRecursive h obj depth =
     (if depth > 5 then (VStr ''[Object too deep]'', h)
      else
        (case obj of
           VRef a \<Rightarrow>
             (case lookup h a of
                None \<Rightarrow> (obj, h)
              | Some (Arr items) \<Rightarrow>
                  (case sanitizeItems h items depth of
                     (items', h') \<Rightarrow> (VRef (length h'), h' @ [Arr items']))
              | Some (Obj entries) \<Rightarrow>
                  (case sanitizeEntries h entries depth of
                     (result, h') \<Rightarrow> (VRef (length h'), h' @ [Obj result])))
         | _ \<Rightarrow> (obj, h)))"
| "sanitizeItems h [] depth = ([], h)"
| "sanitizeItems h (item # items) depth =
     (case sanitizeRecursive h item (depth + 1) of
        (item', h1) \<Rightarrow>
          (case sanitizeItems h1 items depth of
             (items', h2) \<Rightarrow> (item' # items', h2)))"
| "sanitizeEntries h [] depth = ([], h)"
| "sanitizeEntries h ((key, value) # rest) depth =
     (if isSensitive key then
        (case sanitizeEntries h rest depth of
           (result, h') \<Rightarrow> (setProperty key (VStr ''[REDACTED]'') result, h'))
      else if isObject value then
        (case sanitizeRecursive h value (depth + 1) of
           (value', h1) \<Rightarrow>
             (case sanitizeEntries h1 rest depth of
                (result, h2) \<Rightarrow> (setProperty key value' result, h2)))
      else
        (case sanitizeEntries h rest depth of
           (result, h') \<Rightarrow> (setProperty key value result, h')))"
  by pat_completeness auto
termination
  by (relation "measures
        [\<lambda>x. case x of
                Inl (h, obj, depth) \<Rightarrow> 2 * (7 - depth)
              | Inr (Inl (h, items, depth)) \<Rightarrow> 2 * (7 - depth) - 1
              | Inr (Inr (h, entries, depth)) \<Rightarrow> 2 * (7 - depth) - 1,
         \<lambda>x. case x of
                Inl (h, obj, depth) \<Rightarrow> 0
              | Inr (Inl (h, items, depth)) \<Rightarrow> Suc (length items)
              | Inr (Inr (h, entries, depth)) \<Rightarrow> Suc (length entries)]")
     auto

text \<open>
  \<open>sanitizeData\<close>: a falsy value or a primitive is returned as it is; of an object or
  array a shallow copy \<open>sanitized\<close> is made (\<open>[...data]\<close>, \<open>{ ...data }\<close>), and
  \<open>sanitizeRecursive(sanitized)\<close> is returned.
\<close>

definition sanitizeData :: "heap \<Rightarrow> val \<Rightarrow> val \<times> heap" where
  "sanitizeData h data =
     (if \<not> truthy data \<or> \<not> isObject data then (data, h)
      else
        (case data of
           VRef a \<Rightarrow>
             (case lookup h a of
                Some ob \<Rightarrow> sanitizeRecursive (h @ [ob]) (VRef (length h)) 0
              | None \<Rightarrow> (data, h))
         | _ \<Rightarrow> (data, h)))"

text \<open>
  An object made by \<open>sanitizeRecursive\<close> from address \<open>n\<close> on: it refers to no object
  below \<open>n\<close>, and each of its sensitive keys holds the redaction marker.
\<close>

fun cleanVal :: "nat \<Rightarrow> val \<Rightarrow> bool" where
  "cleanVal n (VRef a) = (n \<le> a)"
| "cleanVal n _ = True"

fun cleanObj :: "nat \<Rightarrow> hobj \<Rightarrow> bool" where
  "cleanObj n (Arr items) = list_all (cleanVal n) items"
| "cleanObj n (Obj entries) =
     list_all (\<lambda>e. cleanVal n (snd e) \<and> (isSensitive (fst e) \<longrightarrow> snd e = VStr ''[REDACTED]''))
       entries"

text \<open>
  The heap \<open>h'\<close> is the well-formed heap \<open>h\<close> followed by objects made by
  \<open>sanitizeRecursive\<close>: the objects of \<open>h\<close> are in place and unchanged, and every
  object added is clean from the end of \<open>h\<close> on.
\<close>

definition sanitized :: "heap \<Rightarrow> heap \<Rightarrow> bool" where
  "sanitized h h' =
     (prefix h h' \<and> wfHeap h' \<and>
      (\<forall>a. length h \<le> a \<and> a < length h' \<longrightarrow> cleanObj (length h) (h' ! a)))"

text \<open>
  A structure of the heap read back as a tree, down to a number of levels.
\<close>

datatype tree = Leaf val | ArrT "tree list" | ObjT "(string \<times> tree) list"

fun reify :: "nat \<Rightarrow> heap \<Rightarrow> val \<Rightarrow> tree" where
  "reify 0 h v = Leaf v"
| "reify (Suc n) h v =
     (case v of
        VRef a \<Rightarrow>
          (case lookup h a of
             Some (Arr items) \<Rightarrow> ArrT (map (reify n h) items)
           | Some (Obj entries) \<Rightarrow> ObjT (map (\<lambda>e. (fst e, reify n h (snd e))) entries)
           | None \<Rightarrow> Leaf v)
      | _ \<Rightarrow> Leaf v)"

text \<open>
  What the sanitized copy of a payload is, said on trees, level by level. At a depth
  beyond 5 it is the depth marker. Otherwise a primitive is itself; an array is the
  array of the copies of its elements, each taken one level deeper; an object is the
  object of its entries other than \<open>__proto__\<close>, in order, where a key that matches a
  sensitive pattern holds the redaction marker, another key with a primitive value
  holds that value, and another key with an object or array holds the copy of it taken
  one level deeper.
\<close>

fun primitiveT :: "tree \<Rightarrow> bool" where
  "primitiveT (Leaf v) = (\<not> isObject v)"
| "primitiveT _ = False"

fun redactedCopy :: "nat \<Rightarrow> tree \<Rightarrow> tree"
  and redactedItems :: "nat \<Rightarrow> tree list \<Rightarrow> tree list"
  and redactedEntries :: "nat \<Rightarrow> (string \<times> tree) list \<Rightarrow> (string \<times> tree) list"
  where
  "redactedCopy d (Leaf v) = (if d > 5 then Leaf (VStr ''[Object too deep]'') else Leaf v)"
| "redactedCopy d (ArrT ts) =
     (if d > 5 then Leaf (VStr ''[Object too deep]'') else ArrT (redactedItems d ts))"
| "redactedCopy d (ObjT es) =
     (if d > 5 then Leaf (VStr ''[Object too deep]'') else ObjT (redactedEntries d es))"
| "redactedItems d [] = []"
| "redactedItems d (t # ts) = redactedCopy (d + 1) t # redactedItems d ts"
| "redactedEntries d [] = []"
| "redactedEntries d ((key, t) # rest) =
     (if key = ''__proto__'' then redactedEntries d rest
      else (key,
            if isSensitive key then Leaf (VStr ''[REDACTED]'')
            else if primitiveT t then t
            else redactedCopy (d + 1) t) # redactedEntries d rest)"

text \<open>
  A payload nested seven objects deep. The object at depth 5 (address 5) holds a
  number, an object under a plain key and an object under a sensitive key.
\<close>

definition deepHeap :: heap where
  "deepHeap =
     [Obj [(''a'', VRef 1)], Obj [(''a'', VRef 2)], Obj [(''a'', VRef 3)],
      Obj [(''a'', VRef 4)], Obj [(''a'', VRef 5)],
      Obj [(''n'', VNum 1), (''deep'', VRef 6), (''token'', VRef 6)],
      Obj [(''x'', VNum 2)]]"

text \<open>A payload with a password at the top and an API key inside a nested object.\<close>

definition loginHeap :: heap where
  "loginHeap =
     [Obj [(''user'', VStr ''ann''), (''Password'', VStr ''hunter2''), (''meta'', VRef 1)],
      Obj [(''apiKey'', VStr ''k-123''), (''tags'', VRef 2)],
      Arr [VStr ''x'', VNum 7]]"

text \<open>
  A payload parsed from \<open>{"__proto__": {"admin": true}, "name": "x", "__proto__x": 1}\<close>:
  \<open>JSON.parse\<close> makes \<open>__proto__\<close> an own property.
\<close>

definition protoHeap :: heap where
  "protoHeap =
     [Obj [(''__proto__'', VRef 1), (''name'', VStr ''x''), (''__proto__x'', VNum 1)],
      Obj [(''admin'', VBool True)]]"

section \<open>Truncation (src/src/api/download.ts: ApiLogger.truncateResponseBody)\<close>

text \<open>
  \<open>JSON.stringify\<close> is a built-in. Its results on \<open>undefined\<close> (no string), \<open>null\<close>, the
  booleans and \<open>0\<close> are written out; on every other value it is the parameter \<open>ext\<close>,
  where \<open>None\<close> is the \<open>TypeError\<close> that it throws on a structure containing itself.
\<close>

datatype jsError = TypeError

definition jsonStringify :: "(heap \<Rightarrow> val \<Rightarrow> string option) \<Rightarrow> heap \<Rightarrow> val \<Rightarrow> string option" where
  "jsonStringify ext h v =
     (case v of
        VUndefined \<Rightarrow> None
      | VNull \<Rightarrow> Some ''null''
      | VBool b \<Rightarrow> Some (if b then ''true'' else ''false'')
      | VNum n \<Rightarrow> (if n = 0 then Some ''0'' else ext h v)
      | _ \<Rightarrow> ext h v)"

text \<open>\<open>typeof body === 'string' ? body : JSON.stringify(body)\<close>: the serialized form.\<close>

definition bodyString :: "(heap \<Rightarrow> val \<Rightarrow> string option) \<Rightarrow> heap \<Rightarrow> val \<Rightarrow> string option" where
  "bodyString ext h body = (case body of VStr s \<Rightarrow> Some s | _ \<Rightarrow> jsonStringify ext h body)"

definition truncateResponseBody ::
  "(heap \<Rightarrow> val \<Rightarrow> string option) \<Rightarrow> heap \<Rightarrow> val \<Rightarrow> nat \<Rightarrow> jsError + val \<times> heap" where
  "truncateResponseBody ext h body maxLength =
     (if \<not> truthy body then Inr (body, h)
      else
        (case bodyString ext h body of
           None \<Rightarrow> Inl TypeError
         | Some s \<Rightarrow>
             (if length s \<le> maxLength then Inr (body, h)
              else Inr (VRef (length h),
                        h @ [Obj [(''_truncated'', VBool True),
                                  (''_originalLength'', VNum (int (length s))),
                                  (''_data'', VStr (take maxLength s @ ''...''))]]))))"

text \<open>A stand-in for \<open>JSON.stringify\<close> in the examples.\<close>

definition exampleStringify :: "heap \<Rightarrow> val \<Rightarrow> string option" where
  "exampleStringify h v = (case v of VNum n \<Rightarrow> Some ''42'' | _ \<Rightarrow> Some ''{}'')"

section \<open>Request correlation (utils/apiLogger, found in src/src/api/download.ts: ApiLogger)\<close>

text \<open>
  \<open>ApiLogContext\<close>; its property \<open>method\<close> is written \<open>httpMethod\<close>.
\<close>

record ApiLogContext =
  requestId :: string
  httpMethod :: string
  url :: string
  timestamp :: int
  userId :: "string option"
  sessionId :: "string option"
  userAgent :: "string option"
  ip :: "string option"

text \<open>
  \<open>ApiResponseLog\<close>; an absent \<open>duration\<close> is \<open>0\<close> (\<open>response.duration || ...\<close> treats
  both alike), an absent \<open>responseBody\<close> is \<open>undefined\<close>.
\<close>

record ApiResponseLog = ApiLogContext +
  status :: int
  duration :: int
  responseBody :: val

text \<open>
  The \<open>error\<close> argument of \<open>logError\<close>: \<open>null\<close> or \<open>undefined\<close>, of which no property can
  be read, or any other value, of which the model keeps the text that
  \<open>error.message || error\<close> gives.
\<close>

datatype errorArg = ErrNullish | ErrValue string

text \<open>
  The calls that \<open>ApiLogger\<close> makes on its \<open>Logger\<close>, in the order made. A call keeps
  the message and, of the data object, the entries listed (a number that the source
  formats into a string is kept as the number). \<open>LoggerApiResponse\<close> keeps the arguments
  \<open>method\<close>, \<open>url\<close>, \<open>status\<close>, the \<open>responseData\<close> entry that \<open>Logger.apiResponse\<close>
  computes from its fourth argument, \<open>requestId\<close> and \<open>duration\<close>. The headers and body
  of a request, which \<open>logRequest\<close> passes through \<open>sanitizeData\<close>, are not part of a
  call.
\<close>

datatype logValue = S string | N int

datatype loggerCall =
    LoggerWarn string "(string \<times> logValue) list"
  | LoggerError string "(string \<times> logValue) list"
  | LoggerApiRequest string string string
  | LoggerApiResponse string string int val string int
  | LoggerApiError string string string string

text \<open>
  The severity at which \<open>Logger\<close> processes each call: \<open>warn\<close> and \<open>error\<close> by their
  names, \<open>apiRequest\<close> through \<open>this.info\<close>, \<open>apiError\<close> through \<open>this.error\<close>, and
  \<open>apiResponse\<close> at \<open>status >= 400 ? ERROR : INFO\<close>.
\<close>

fun callLevel :: "loggerCall \<Rightarrow> LogLevel" where
  "callLevel (LoggerWarn _ _) = WARN"
| "callLevel (LoggerError _ _) = ERROR"
| "callLevel (LoggerApiRequest _ _ _) = INFO"
| "callLevel (LoggerApiResponse _ _ st _ _ _) = (if st \<ge> 400 then ERROR else INFO)"
| "callLevel (LoggerApiError _ _ _ _) = ERROR"

text \<open>
  The state of an \<open>ApiLogger\<close>: the \<open>Map\<close> \<open>activeRequests\<close> as the list of its entries
  in insertion order (\<open>Map.set\<close> is \<open>AList.update\<close>, \<open>Map.delete\<close> is \<open>AList.delete\<close>,
  \<open>Map.get\<close> is \<open>map_of\<close>), and the calls made on the logger so far.
\<close>

record ApiLogger =
  activeRequests :: "(string \<times> ApiLogContext) list"
  loggerCalls :: "loggerCall list"

definition newApiLogger :: ApiLogger where
  "newApiLogger = \<lparr>activeRequests = [], loggerCalls = []\<rparr>"

text \<open>
  \<open>apiLoggingSettings\<close> (config/logging, found in
  \<open>src/src/components/RecommendedSection.tsx\<close>). \<open>env\<close> is the value of
  \<open>getEnvironment()\<close>.
\<close>

definition logRequests :: "string \<Rightarrow> bool" where
  "logRequests env = (env = ''development'')"

definition logResponseBodies :: "string \<Rightarrow> bool" where
  "logResponseBodies env = (env = ''development'')"

definition maxResponseBodyLength :: "string \<Rightarrow> nat" where
  "maxResponseBodyLength env = (if env = ''development'' then 5000 else 1000)"

definition slowRequestThreshold :: int where
  "slowRequestThreshold = 3000"

text \<open>
  \<open>logRequest\<close>. \<open>now\<close> is the value of \<open>Date.now()\<close>, \<open>generated\<close> the value of
  \<open>generateRequestId()\<close>; \<open>request.requestId || generated\<close> takes the generated id for
  the empty string.
\<close>

definition logRequest ::
  "string \<Rightarrow> int \<Rightarrow> string \<Rightarrow> 'a ApiLogContext_scheme \<Rightarrow> ApiLogger \<Rightarrow> string \<times> ApiLogger" where
  "logRequest env now generated request lg =
     (let rid = (if requestId request \<noteq> [] then requestId request else generated);
          context = \<lparr>requestId = rid, httpMethod = httpMethod request, url = url request,
                     timestamp = now, userId = userId request,
                     sessionId = sessionId request, userAgent = userAgent request,
                     ip = ip request\<rparr>;
          lg1 = lg\<lparr>activeRequests := AList.update rid context (activeRequests lg)\<rparr>;
          lg2 = (if logRequests env
                 then lg1\<lparr>loggerCalls := loggerCalls lg1 @
                        [LoggerApiRequest (httpMethod request) (url request) rid]\<rparr>
                 else lg1)
      in (rid, lg2))"

text \<open>
  The \<open>responseData\<close> entry of \<open>Logger.apiResponse\<close> (\<open>src/src/utils/logger.ts\<close>):
  \<open>responseData ? (typeof responseData === 'object' ?
  JSON.stringify(responseData).substring(0, 1000) : responseData) : undefined\<close>. It is
  evaluated in \<open>apiResponse\<close> itself, before the asynchronous \<open>processLog\<close> is entered,
  so the \<open>TypeError\<close> of \<open>JSON.stringify\<close> reaches the caller.
\<close>

definition apiResponseData ::
  "(heap \<Rightarrow> val \<Rightarrow> string option) \<Rightarrow> heap \<Rightarrow> val \<Rightarrow> jsError + val" where
  "apiResponseData ext h responseData =
     (if truthy responseData then
        (if isObject responseData then
           (case jsonStringify ext h responseData of
              None \<Rightarrow> Inl TypeError
            | Some s \<Rightarrow> Inr (VStr (take 1000 s)))
         else Inr responseData)
      else Inr VUndefined)"

text \<open>
  The response body as \<open>logResponse\<close> prepares it for the log:
  \<open>if (apiLoggingSettings.logResponseBodies && responseBody) responseBody =
  this.truncateResponseBody(this.sanitizeData(responseBody), maxResponseBodyLength)\<close>.
\<close>

definition preparedBody ::
  "string \<Rightarrow> (heap \<Rightarrow> val \<Rightarrow> string option) \<Rightarrow> heap \<Rightarrow> val \<Rightarrow> jsError + val \<times> heap" where
  "preparedBody env ext h body =
     (if logResponseBodies env \<and> truthy body then
        (case sanitizeData h body of
           (sanitizedBody, h1) \<Rightarrow>
             truncateResponseBody ext h1 sanitizedBody (maxResponseBodyLength env))
      else Inr (body, h))"

text \<open>
  \<open>logResponse\<close>, on the heap \<open>h\<close> that holds the response body. The result is how the
  call ends (\<open>None\<close>: it returns; \<open>Some e\<close>: it throws \<open>e\<close>) and the \<open>ApiLogger\<close> it
  leaves. \<open>response.duration || (Date.now() - context.timestamp)\<close> takes the computed
  duration for \<open>0\<close>. The statements run in the order of the source: the lookup, the
  warning for a slow request, the preparation of the body, \<open>this.logger.apiResponse\<close>,
  and last \<open>this.activeRequests.delete\<close>; an exception of \<open>JSON.stringify\<close> in the third
  or the fourth leaves the function before the entry is deleted. The objects that
  \<open>sanitizeData\<close> and \<open>truncateResponseBody\<close> allocate are referred to by nothing once
  the call has ended (the logger keeps the serialized text), so no heap is returned.
\<close>

definition logResponse ::
  "string \<Rightarrow> (heap \<Rightarrow> val \<Rightarrow> string option) \<Rightarrow> heap \<Rightarrow> int \<Rightarrow> 'a ApiResponseLog_scheme \<Rightarrow>
   ApiLogger \<Rightarrow> jsError option \<times> ApiLogger" where
  "logResponse env ext h now response lg =
     (case map_of (activeRequests lg) (requestId response) of
        None \<Rightarrow>
          (None,
           lg\<lparr>loggerCalls := loggerCalls lg @
             [LoggerWarn (''No request context found for response: '' @ requestId response) []]\<rparr>)
      | Some context \<Rightarrow>
          (let dur = (if duration response \<noteq> 0 then duration response
                      else now - timestamp context);
               slow = (if dur > slowRequestThreshold
                       then [LoggerWarn
                               (''Slow API request detected: '' @ httpMethod context @ '' '' @
                                  url context)
                               [(''requestId'', S (requestId response)),
                                (''duration'', N dur),
                                (''threshold'', N slowRequestThreshold)]]
                       else []);
               lg1 = lg\<lparr>loggerCalls := loggerCalls lg @ slow\<rparr>
           in case preparedBody env ext h (responseBody response) of
                Inl e \<Rightarrow> (Some e, lg1)
              | Inr (body, h1) \<Rightarrow>
                  (case apiResponseData ext h1 body of
                     Inl e \<Rightarrow> (Some e, lg1)
                   | Inr responseData \<Rightarrow>
                       (None,
                        lg1\<lparr>loggerCalls := loggerCalls lg1 @
                               [LoggerApiResponse (httpMethod context) (url context)
                                  (status response) responseData (requestId response) dur],
                            activeRequests :=
                              AList.delete (requestId response) (activeRequests lg1)\<rparr>))))"

text \<open>
  \<open>logError\<close>, with the way the call ends as for \<open>logResponse\<close>. Both branches read
  \<open>error.message\<close> before they call the logger or delete the entry: on \<open>null\<close> or
  \<open>undefined\<close> that is a \<open>TypeError\<close>, thrown with the \<open>ApiLogger\<close> as it was. On any other
  value the reads of \<open>error.message\<close>, \<open>error.stack\<close>, \<open>error.code\<close>, \<open>error.status\<close> and
  \<open>error.response?.status\<close> return, and \<open>this.sanitizeData(additionalContext)\<close> returns
  (\<open>sanitizeData\<close> is total); \<open>additionalContext\<close> is not part of a call.
\<close>

definition logError :: "int \<Rightarrow> string \<Rightarrow> errorArg \<Rightarrow> ApiLogger \<Rightarrow> jsError option \<times> ApiLogger" where
  "logError now rid err lg =
     (case map_of (activeRequests lg) rid of
        None \<Rightarrow>
          (case err of
             ErrNullish \<Rightarrow> (Some TypeError, lg)
           | ErrValue text \<Rightarrow>
               (None,
                lg\<lparr>loggerCalls := loggerCalls lg @
                  [LoggerError ''API Error without request context''
                     [(''requestId'', S rid), (''error'', S text)]]\<rparr>))
      | Some context \<Rightarrow>
          (case err of
             ErrNullish \<Rightarrow> (Some TypeError, lg)
           | ErrValue text \<Rightarrow>
               (None,
                lg\<lparr>loggerCalls := loggerCalls lg @
                        [LoggerApiError (httpMethod context) (url context) text rid],
                    activeRequests := AList.delete rid (activeRequests lg)\<rparr>)))"

text \<open>
  \<open>getActiveRequestsStats\<close>: the loop over the entries, with the accumulators
  \<open>stats.byMethod\<close>, \<open>oldestTimestamp\<close> and \<open>stats.oldestRequest\<close>.
\<close>

record ActiveRequestsStats =
  total :: nat
  byMethod :: "(string \<times> nat) list"
  oldestRequest :: "string option"

fun statsLoop ::
  "(string \<times> ApiLogContext) list \<Rightarrow> (string \<times> nat) list \<times> int \<times> string option \<Rightarrow>
   (string \<times> nat) list \<times> int \<times> string option" where
  "statsLoop [] acc = acc"
| "statsLoop ((rid, context) # rest) (byM, oldestTimestamp, oldest) =
     (let byM' = AList.update (httpMethod context)
                   ((case map_of byM (httpMethod context) of Some n \<Rightarrow> n | None \<Rightarrow> 0) + 1) byM
      in if timestamp context < oldestTimestamp
         then statsLoop rest (byM', timestamp context, Some rid)
         else statsLoop rest (byM', oldestTimestamp, oldest))"

definition getActiveRequestsStats :: "int \<Rightarrow> ApiLogger \<Rightarrow> ActiveRequestsStats" where
  "getActiveRequestsStats now lg =
     (let (byM, oldestTimestamp, oldest) = statsLoop (activeRequests lg) ([], now, None)
      in \<lparr>total = length (activeRequests lg), byMethod = byM, oldestRequest = oldest\<rparr>)"

text \<open>
  \<open>cleanupStaleRequests\<close>: the loop over the entries of the map; deleting the entry
  being visited does not disturb the iteration of a \<open>Map\<close>.
\<close>

fun cleanupLoop ::
  "int \<Rightarrow> int \<Rightarrow> (string \<times> ApiLogContext) list \<Rightarrow> nat \<times> ApiLogger \<Rightarrow> nat \<times> ApiLogger" where
  "cleanupLoop fiveMinutesAgo now [] acc = acc"
| "cleanupLoop fiveMinutesAgo now ((rid, context) # rest) (cleaned, lg) =
     (if timestamp context < fiveMinutesAgo then
        cleanupLoop fiveMinutesAgo now rest
          (cleaned + 1,
           lg\<lparr>loggerCalls := loggerCalls lg @
                   [LoggerWarn
                      (''Cleaning up stale request: '' @ httpMethod context @ '' '' @ url context)
                      [(''requestId'', S rid), (''age'', N (now - timestamp context))]],
               activeRequests := AList.delete rid (activeRequests lg)\<rparr>)
      else cleanupLoop fiveMinutesAgo now rest (cleaned, lg))"

definition cleanupStaleRequests :: "int \<Rightarrow> ApiLogger \<Rightarrow> nat \<times> ApiLogger" where
  "cleanupStaleRequests now lg =
     cleanupLoop (now - 5 * 60 * 1000) now (activeRequests lg) (0, lg)"

text \<open>The warning that the sweep logs for an entry.\<close>

definition staleWarning :: "int \<Rightarrow> string \<times> ApiLogContext \<Rightarrow> loggerCall" where
  "staleWarning now e =
     LoggerWarn (''Cleaning up stale request: '' @ httpMethod (snd e) @ '' '' @ url (snd e))
       [(''requestId'', S (fst e)), (''age'', N (now - timestamp (snd e)))]"

text \<open>Two requests for the examples: one begun at time \<open>0\<close>, one at \<open>200000\<close>.\<close>

definition exampleContext :: "string \<Rightarrow> int \<Rightarrow> ApiLogContext" where
  "exampleContext rid t =
     \<lparr>requestId = rid, httpMethod = ''GET'', url = ''/drama'', timestamp = t, userId = None,
      sessionId = None, userAgent = None, ip = None\<rparr>"

definition exampleTracker :: ApiLogger where
  "exampleTracker =
     \<lparr>activeRequests = [(''r1'', exampleContext ''r1'' 0),
                         (''r2'', exampleContext ''r2'' 200000)],
      loggerCalls = []\<rparr>"

definition exampleResponse :: "string \<Rightarrow> ApiResponseLog" where
  "exampleResponse rid =
     \<lparr>requestId = rid, httpMethod = ''GET'', url = ''/drama'', timestamp = 0, userId = None,
      sessionId = None, userAgent = None, ip = None, status = 200, duration = 12,
      responseBody = VUndefined\<rparr>"

text \<open>
  A response whose body is the object at address \<open>0\<close> of \<open>loginHeap\<close>, and a
  \<open>JSON.stringify\<close> that fails on every object, as the built-in does on a structure
  containing itself.
\<close>

definition exampleBodyResponse :: "string \<Rightarrow> ApiResponseLog" where
  "exampleBodyResponse rid = (exampleResponse rid)\<lparr>responseBody := VRef 0\<rparr>"

definition failingStringify :: "heap \<Rightarrow> val \<Rightarrow> string option" where
  "failingStringify h v = (case v of VRef a \<Rightarrow> None | _ \<Rightarrow> Some ''0'')"

section \<open>Properties of the URL selection\<close>

lemma cdnVideoUrl_empty: "videoPathList cdn = [] \<Longrightarrow> cdnVideoUrl cdn = None"
  by (simp add: cdnVideoUrl_def)

lemma cdnVideoUrl_nonempty:
  "videoPathList cdn \<noteq> [] \<Longrightarrow>
   cdnVideoUrl cdn =
     (case find (\<lambda>v. isDefault v = 1 \<and> isVipEquity v = 0) (videoPathList cdn) of
        Some v \<Rightarrow> Some (videoPath v)
      | None \<Rightarrow>
         (case find (\<lambda>v. isVipEquity v = 0) (videoPathList cdn) of
            Some v \<Rightarrow> Some (videoPath v)
          | None \<Rightarrow> Some (videoPath (hd (videoPathList cdn)))))"
  by (cases "videoPathList cdn") (simp_all add: cdnVideoUrl_def split: option.splits)

lemma bestVideoUrlFrom_all_empty:
  "\<forall>cdn\<in>set cdns. videoPathList cdn = [] \<Longrightarrow> bestVideoUrlFrom cdns = None"
  by (induction cdns) (simp_all add: cdnVideoUrl_empty)

lemma bestVideoUrlFrom_first_nonempty:
  assumes "\<forall>c\<in>set pre. videoPathList c = []" and "videoPathList cdn \<noteq> []"
  shows "bestVideoUrlFrom (pre @ cdn # post) = cdnVideoUrl cdn"
  using assms
proof (induction pre)
  case Nil
  then show ?case
    by (simp add: cdnVideoUrl_nonempty split: option.splits)
next
  case (Cons c pre)
  then show ?case by (simp add: cdnVideoUrl_empty)
qed

text \<open>
  C4. \<open>getBestVideoUrl\<close> returns \<open>null\<close> when every CDN entry (if any) has an empty
  variant list. Otherwise it decides inside the first CDN entry whose variant list is
  not empty: the path of the first variant with \<open>isDefault = 1\<close> and
  \<open>isVipEquity = 0\<close>; when there is none, the path of the first variant with
  \<open>isVipEquity = 0\<close>; when there is none either, the path of the first variant. The
  chapter of the specification's example resolves to \<open>b\<close>.
\<close>

theorem getBestVideoUrl_three_tier:
  "((\<forall>cdn\<in>set (cdnList ch). videoPathList cdn = []) \<longrightarrow> getBestVideoUrl ch = None) \<and>
   (\<forall>pre cdn post.
      cdnList ch = pre @ cdn # post \<and> (\<forall>c\<in>set pre. videoPathList c = []) \<and>
      videoPathList cdn \<noteq> [] \<longrightarrow>
        (\<forall>v. find (\<lambda>v. isDefault v = 1 \<and> isVipEquity v = 0) (videoPathList cdn) = Some v
           \<longrightarrow> getBestVideoUrl ch = Some (videoPath v)) \<and>
        (find (\<lambda>v. isDefault v = 1 \<and> isVipEquity v = 0) (videoPathList cdn) = None \<longrightarrow>
           (\<forall>v. find (\<lambda>v. isVipEquity v = 0) (videoPathList cdn) = Some v
              \<longrightarrow> getBestVideoUrl ch = Some (videoPath v)) \<and>
           (find (\<lambda>v. isVipEquity v = 0) (videoPathList cdn) = None
              \<longrightarrow> getBestVideoUrl ch = Some (videoPath (hd (videoPathList cdn)))))) \<and>
   getBestVideoUrl (exampleChapter :: unit Chapter) = Some ''b''"
proof (intro conjI allI impI)
  assume "\<forall>cdn\<in>set (cdnList ch). videoPathList cdn = []"
  then show "getBestVideoUrl ch = None"
    by (simp add: getBestVideoUrl_def bestVideoUrlFrom_all_empty)
next
  fix pre cdn post v
  assume h: "cdnList ch = pre @ cdn # post \<and> (\<forall>c\<in>set pre. videoPathList c = []) \<and>
      videoPathList cdn \<noteq> []"
    and f: "find (\<lambda>v. isDefault v = 1 \<and> isVipEquity v = 0) (videoPathList cdn) = Some v"
  from h have "getBestVideoUrl ch = cdnVideoUrl cdn"
    by (simp add: getBestVideoUrl_def bestVideoUrlFrom_first_nonempty)
  with h f show "getBestVideoUrl ch = Some (videoPath v)"
    by (simp add: cdnVideoUrl_nonempty)
next
  fix pre cdn post v
  assume h: "cdnList ch = pre @ cdn # post \<and> (\<forall>c\<in>set pre. videoPathList c = []) \<and>
      videoPathList cdn \<noteq> []"
    and n: "find (\<lambda>v. isDefault v = 1 \<and> isVipEquity v = 0) (videoPathList cdn) = None"
    and f: "find (\<lambda>v. isVipEquity v = 0) (videoPathList cdn) = Some v"
  from h have "getBestVideoUrl ch = cdnVideoUrl cdn"
    by (simp add: getBestVideoUrl_def bestVideoUrlFrom_first_nonempty)
  with h n f show "getBestVideoUrl ch = Some (videoPath v)"
    by (simp add: cdnVideoUrl_nonempty)
next
  fix pre cdn post
  assume h: "cdnList ch = pre @ cdn # post \<and> (\<forall>c\<in>set pre. videoPathList c = []) \<and>
      videoPathList cdn \<noteq> []"
    and n: "find (\<lambda>v. isDefault v = 1 \<and> isVipEquity v = 0) (videoPathList cdn) = None"
    and f: "find (\<lambda>v. isVipEquity v = 0) (videoPathList cdn) = None"
  from h have "getBestVideoUrl ch = cdnVideoUrl cdn"
    by (simp add: getBestVideoUrl_def bestVideoUrlFrom_first_nonempty)
  with h n f show "getBestVideoUrl ch = Some (videoPath (hd (videoPathList cdn)))"
    by (simp add: cdnVideoUrl_nonempty)
next
  show "getBestVideoUrl (exampleChapter :: unit Chapter) = Some ''b''"
    by (simp add: getBestVideoUrl_def exampleChapter_def exampleCdn_def cdnVideoUrl_def
        exampleVariantA_def exampleVariantB_def)
qed

theorem getBestVideoUrl_three_tier_witness:
  "cdnList (exampleChapter :: unit Chapter) =
     [] @ exampleCdn # [] \<and>
   find (\<lambda>v. isDefault v = 1 \<and> isVipEquity v = 0) [exampleVariantA, exampleVariantB]
     = Some exampleVariantB \<and>
   getBestVideoUrl (exampleChapter :: unit Chapter) = Some (videoPath exampleVariantB)"
  using getBestVideoUrl_three_tier [of "exampleChapter :: unit Chapter"]
  by (simp add: exampleChapter_def exampleCdn_def exampleVariantA_def exampleVariantB_def)

section \<open>Properties of the merge\<close>

lemma mergeChapters_length: "length (mergeChapters cs ds) = length cs"
  by (simp add: mergeChapters_def)

lemma mergeChapters_nth:
  "i < length cs \<Longrightarrow> mergeChapters cs ds ! i = mergeChapter ds i (cs ! i)"
  by (simp add: mergeChapters_def nth_enumerate_eq)

text \<open>
  C3, as the code has it. The merged list has the length and the order of the chapter
  list. At an index below both lengths the entry is the chapter entry with
  \<open>chapterIndex\<close> and \<open>isCharge\<close> copied from the detail entry, \<open>isPay\<close> copied when
  the detail entry has one and \<open>0\<close> otherwise, and the size list copied when the detail
  entry has one and the empty list otherwise. From the length of the detail list on, the
  entry is the chapter entry itself.
\<close>

theorem mergeChapters_positional:
  "length (mergeChapters cs ds) = length cs \<and>
   (\<forall>i. i < min (length ds) (length cs) \<longrightarrow>
      mergeChapters cs ds ! i =
        (cs ! i)\<lparr>chapterIndex := detailChapterIndex (ds ! i),
                 isCharge := detailIsCharge (ds ! i),
                 isPay := Some (case detailIsPay (ds ! i) of Some p \<Rightarrow> p | None \<Rightarrow> 0),
                 chapterSizeVoList :=
                   Some (case detailChapterSizeVoList (ds ! i) of Some l \<Rightarrow> l | None \<Rightarrow> [])\<rparr>) \<and>
   (\<forall>i. length ds \<le> i \<and> i < length cs \<longrightarrow> mergeChapters cs ds ! i = cs ! i)"
  by (auto simp: mergeChapters_length mergeChapters_nth mergeChapter_def Let_def
      split: option.splits)

theorem mergeChapters_positional_witness:
  "(0::nat) < min (length [exampleDetailNoPay :: unit DetailEpisode])
      (length [exampleChapter :: unit Chapter, exampleChapter]) \<and>
   chapterIndex
     (mergeChapters [exampleChapter :: unit Chapter, exampleChapter] [exampleDetailNoPay] ! 0) = 7 \<and>
   length [exampleDetailNoPay :: unit DetailEpisode] \<le> 1 \<and>
   (1::nat) < length [exampleChapter :: unit Chapter, exampleChapter] \<and>
   mergeChapters [exampleChapter :: unit Chapter, exampleChapter] [exampleDetailNoPay] ! 1
     = exampleChapter"
  using mergeChapters_positional
    [of "[exampleChapter :: unit Chapter, exampleChapter]" "[exampleDetailNoPay]"]
  by (simp add: exampleDetailNoPay_def)

text \<open>
  A detail entry without \<open>isPay\<close> and without a size list: the merged chapter carries
  \<open>isPay = 0\<close> and an empty size list, which are not values of the detail entry.
\<close>

theorem mergeChapters_defaults_not_copied:
  "isPay (mergeChapters [exampleChapter :: unit Chapter] [exampleDetailNoPay] ! 0) = Some 0 \<and>
   detailIsPay (exampleDetailNoPay :: unit DetailEpisode) = None \<and>
   isPay (mergeChapters [exampleChapter :: unit Chapter] [exampleDetailNoPay] ! 0)
     \<noteq> detailIsPay (exampleDetailNoPay :: unit DetailEpisode) \<and>
   chapterSizeVoList (mergeChapters [exampleChapter :: unit Chapter] [exampleDetailNoPay] ! 0)
     \<noteq> detailChapterSizeVoList (exampleDetailNoPay :: unit DetailEpisode)"
  by (simp add: mergeChapters_def mergeChapter_def exampleDetailNoPay_def exampleChapter_def)

section \<open>Properties of the paginated fetch\<close>

lemma totalPagesOf_div: "totalPagesOf n = (n + 5) div 6"
proof -
  have "\<lceil>real n / 6\<rceil> = \<lceil>of_int (int n) / of_int 6 :: real\<rceil>" by simp
  also have "\<dots> = - (- int n div 6)" by (rule ceiling_divide_eq_div)
  also have "\<dots> = int ((n + 5) div 6)" by linarith
  finally show ?thesis by (simp add: totalPagesOf_def)
qed

lemma pagesUntilEmpty_beyond: "totalPages < page \<Longrightarrow> pagesUntilEmpty api b page totalPages = []"
  by (simp add: pagesUntilEmpty_def)

lemma pagesUntilEmpty_step:
  assumes "page \<le> totalPages"
  shows "pagesUntilEmpty api b page totalPages =
     (if getChapters api b (startIndexOf page) = Inr [] then [page]
      else page # pagesUntilEmpty api b (Suc page) totalPages)"
proof -
  have u: "[page..<Suc totalPages] = page # [Suc page..<Suc totalPages]"
    using assms by (simp add: upt_rec)
  show ?thesis
  proof (cases "getChapters api b (startIndexOf page) = Inr []")
    case True
    then show ?thesis unfolding pagesUntilEmpty_def u by simp
  next
    case False
    show ?thesis
    proof (cases "find (\<lambda>p. getChapters api b (startIndexOf p) = Inr []) [Suc page..<Suc totalPages]")
      case None
      with False show ?thesis unfolding pagesUntilEmpty_def u by simp
    next
      case (Some k)
      then have "k \<in> set [Suc page..<Suc totalPages]"
        by (metis find_Some_iff nth_mem)
      then have "page < Suc k" by auto
      then have "[page..<Suc k] = page # [Suc page..<Suc k]" by (simp add: upt_rec)
      with False Some show ?thesis unfolding pagesUntilEmpty_def u by simp
    qed
  qed
qed

lemma pageLoop_done: "totalPages < page \<Longrightarrow> pageLoop api b totalPages page acc evs = (evs, acc)"
  by (subst pageLoop.simps) simp

lemma pageLoop_threw:
  "page \<le> totalPages \<Longrightarrow> getChapters api b (startIndexOf page) = Inl e \<Longrightarrow>
   pageLoop api b totalPages page acc evs =
     pageLoop api b totalPages (page + 1) acc
       (evs @ [Fetch page (startIndexOf page), ConsoleError page e])"
  by (subst pageLoop.simps) (simp del: pageLoop.simps)

lemma pageLoop_empty:
  "page \<le> totalPages \<Longrightarrow> getChapters api b (startIndexOf page) = Inr [] \<Longrightarrow>
   pageLoop api b totalPages page acc evs = (evs @ [Fetch page (startIndexOf page)], acc)"
  by (subst pageLoop.simps) (simp del: pageLoop.simps)

lemma pageLoop_items:
  "page \<le> totalPages \<Longrightarrow> getChapters api b (startIndexOf page) = Inr cs \<Longrightarrow> cs \<noteq> [] \<Longrightarrow>
   pageLoop api b totalPages page acc evs =
     pageLoop api b totalPages (page + 1) (acc @ cs)
       (evs @ [Fetch page (startIndexOf page)] @ (if page < totalPages then [Delay 100] else []))"
  by (subst pageLoop.simps) (simp del: pageLoop.simps)

lemma pageLoop_closed_form:
  "pageLoop api b totalPages page acc evs =
     (evs @ concat (map (pageEvents api b totalPages) (pagesUntilEmpty api b page totalPages)),
      acc @ concat (map (pageItems api b) (pagesUntilEmpty api b page totalPages)))"
proof (induction api b totalPages page acc evs rule: pageLoop.induct)
  case (1 api bookId totalPages page allChapters evs)
  show ?case
  proof (cases "page \<le> totalPages")
    case False
    then show ?thesis by (simp add: pagesUntilEmpty_beyond pageLoop_done del: pageLoop.simps)
  next
    case le: True
    show ?thesis
    proof (cases "getChapters api bookId (startIndexOf page)")
      case (Inl e)
      then have ne: "getChapters api bookId (startIndexOf page) \<noteq> Inr []" by simp
      show ?thesis
        using "1.IH"(1)[OF le refl Inl] le Inl ne
        by (simp add: pageLoop_threw pagesUntilEmpty_step pageEvents_def pageItems_def del: pageLoop.simps)
    next
      case (Inr cs)
      show ?thesis
      proof (cases "cs = []")
        case True
        then show ?thesis
          using le Inr by (simp add: pageLoop_empty pagesUntilEmpty_step pageEvents_def pageItems_def del: pageLoop.simps)
      next
        case False
        then have pos: "0 < length cs" by simp
        show ?thesis
          using "1.IH"(2)[OF le refl Inr pos] le Inr False
          by (simp add: pageLoop_items pagesUntilEmpty_step pageEvents_def pageItems_def del: pageLoop.simps)
      qed
    qed
  qed
qed


lemma pagesOf_append: "pagesOf (xs @ ys) = pagesOf xs @ pagesOf ys"
  by (simp add: pagesOf_def List.map_filter_def)

lemma pagesOf_pageEvents: "pagesOf (pageEvents api b T p) = [p]"
  by (simp add: pagesOf_def pageEvents_def List.map_filter_simps split: sum.splits)

lemma pagesOf_concat_pageEvents: "pagesOf (concat (map (pageEvents api b T) ps)) = ps"
  by (induction ps) (simp_all add: pagesOf_append pagesOf_pageEvents, simp add: pagesOf_def List.map_filter_simps)

lemma Fetch_in_pageEvents:
  "Fetch p s \<in> set (concat (map (pageEvents api b T) ps)) \<longleftrightarrow> p \<in> set ps \<and> s = startIndexOf p"
  by (induction ps) (auto simp: pageEvents_def split: sum.splits if_splits)

lemma ConsoleError_in_pageEvents:
  "p \<in> set ps \<Longrightarrow> getChapters api b (startIndexOf p) = Inl e \<Longrightarrow>
   ConsoleError p e \<in> set (concat (map (pageEvents api b T) ps))"
  by (induction ps) (auto simp: pageEvents_def)

lemma pagesUntilEmpty_next:
  assumes "p \<in> set (pagesUntilEmpty api b first T)"
    and "getChapters api b (startIndexOf p) \<noteq> Inr []" and "p < T"
  shows "Suc p \<in> set (pagesUntilEmpty api b first T)"
proof (cases "find (\<lambda>p. getChapters api b (startIndexOf p) = Inr []) [first..<Suc T]")
  case None
  with assms show ?thesis by (auto simp: pagesUntilEmpty_def)
next
  case (Some k)
  then have "getChapters api b (startIndexOf k) = Inr []"
    by (metis (mono_tags, lifting) find_Some_iff)
  with assms(2) have "p \<noteq> k" by auto
  with assms(1) Some show ?thesis by (auto simp: pagesUntilEmpty_def)
qed

lemma getAllChapters_closed_form:
  "bookId \<noteq> [] \<Longrightarrow>
   getAllChapters api bookId n =
     (concat (map (pageEvents api bookId (totalPagesOf n))
        (pagesUntilEmpty api bookId 1 (totalPagesOf n))),
      Inr (concat (map (pageItems api bookId) (pagesUntilEmpty api bookId 1 (totalPagesOf n)))))"
  by (simp add: getAllChapters_def pageLoop_closed_form Let_def del: pageLoop.simps)

text \<open>
  C1, for a non-empty \<open>bookId\<close>. The pages fetched are \<open>1, 2, ...\<close> in increasing order
  up to \<open>ceil(totalEpisodes / 6)\<close>, or up to and including the first page whose fetch
  returns no item; the fetch of page \<open>p\<close> carries the cursor \<open>1 + (p - 1) * 6\<close>; the
  value returned is the concatenation of the items of the pages fetched (a page whose
  fetch threw contributes none); and \<open>totalEpisodes = 0\<close> fetches nothing.
\<close>

theorem getAllChapters_pages_in_order:
  assumes "bookId \<noteq> []"
  shows "pagesOf (fst (getAllChapters api bookId totalEpisodes)) =
       (case find (\<lambda>p. getChapters api bookId (1 + (p - 1) * 6) = Inr [])
               [1..<Suc (nat \<lceil>real totalEpisodes / 6\<rceil>)] of
          None \<Rightarrow> [1..<Suc (nat \<lceil>real totalEpisodes / 6\<rceil>)]
        | Some k \<Rightarrow> [1..<Suc k]) \<and>
     (\<forall>p s. Fetch p s \<in> set (fst (getAllChapters api bookId totalEpisodes))
        \<longrightarrow> s = 1 + (p - 1) * 6) \<and>
     snd (getAllChapters api bookId totalEpisodes) =
       Inr (concat (map (\<lambda>p. case getChapters api bookId (1 + (p - 1) * 6) of
                                 Inr cs \<Rightarrow> cs | Inl _ \<Rightarrow> [])
              (pagesOf (fst (getAllChapters api bookId totalEpisodes))))) \<and>
     fst (getAllChapters api bookId 0) = []"
proof -
  let ?T = "totalPagesOf totalEpisodes"
  let ?ps = "pagesUntilEmpty api bookId 1 ?T"
  have cf: "getAllChapters api bookId totalEpisodes =
     (concat (map (pageEvents api bookId ?T) ?ps), Inr (concat (map (pageItems api bookId) ?ps)))"
    using assms by (rule getAllChapters_closed_form)
  have pages: "pagesOf (fst (getAllChapters api bookId totalEpisodes)) = ?ps"
    by (simp add: cf pagesOf_concat_pageEvents)
  have items: "pageItems api bookId = (\<lambda>p. case getChapters api bookId (1 + (p - 1) * 6) of
                                 Inr cs \<Rightarrow> cs | Inl _ \<Rightarrow> [])"
    by (rule ext) (simp add: pageItems_def startIndexOf_def)
  have zero: "fst (getAllChapters api bookId 0) = []"
    using assms by (simp add: getAllChapters_closed_form totalPagesOf_div pagesUntilEmpty_beyond)
  have idx: "\<forall>p s. Fetch p s \<in> set (fst (getAllChapters api bookId totalEpisodes))
        \<longrightarrow> s = 1 + (p - 1) * 6"
    unfolding cf fst_conv Fetch_in_pageEvents by (simp add: startIndexOf_def)
  have res: "snd (getAllChapters api bookId totalEpisodes) =
       Inr (concat (map (\<lambda>p. case getChapters api bookId (1 + (p - 1) * 6) of
                                 Inr cs \<Rightarrow> cs | Inl _ \<Rightarrow> [])
              (pagesOf (fst (getAllChapters api bookId totalEpisodes)))))"
    unfolding pages items[symmetric] by (simp add: cf)
  have shape: "?ps = (case find (\<lambda>p. getChapters api bookId (1 + (p - 1) * 6) = Inr [])
               [1..<Suc (nat \<lceil>real totalEpisodes / 6\<rceil>)] of
          None \<Rightarrow> [1..<Suc (nat \<lceil>real totalEpisodes / 6\<rceil>)]
        | Some k \<Rightarrow> [1..<Suc k])"
    unfolding pagesUntilEmpty_def totalPagesOf_def startIndexOf_def by simp
  from pages shape idx res zero show ?thesis by simp
qed

lemma shortApi_run:
  "getAllChapters shortApi ''b1'' 13 = ([Fetch 1 1, Delay 100, Fetch 2 7], Inr [1..<7])"
  by (simp add: getAllChapters_def totalPagesOf_div pageLoop.simps startIndexOf_def
      getChapters_def shortApi_def)

theorem getAllChapters_pages_in_order_witness:
  "''b1'' \<noteq> [] \<and>
   pagesOf (fst (getAllChapters shortApi ''b1'' 13)) = [1, 2] \<and>
   Fetch 2 7 \<in> set (fst (getAllChapters shortApi ''b1'' 13)) \<and>
   snd (getAllChapters shortApi ''b1'' 13) = Inr [1..<7]"
  using getAllChapters_pages_in_order [of "''b1''" shortApi 13]
  by (simp add: shortApi_run pagesOf_def List.map_filter_simps)

text \<open>
  With the empty \<open>bookId\<close> and six episodes, the pages \<open>1..ceil(6 / 6)\<close> are the page
  \<open>1\<close>, yet nothing is fetched: the guard at the head of \<open>getAllChapters\<close> throws.
\<close>

theorem getAllChapters_empty_bookId_no_fetch:
  "[1..<Suc (nat \<lceil>real (6::nat) / 6\<rceil>)] = [1] \<and>
   pagesOf (fst (getAllChapters exampleApi [] 6)) = [] \<and>
   getAllChapters exampleApi [] 6 = ([], Inl BookIdRequired)"
  by (simp add: getAllChapters_def pagesOf_def List.map_filter_simps)

text \<open>
  C2. An error of a page fetch never leaves \<open>getAllChapters\<close>. When the fetch of page
  \<open>p\<close> throws \<open>e\<close>: the error is reported on the console for that page, the next page
  is fetched when \<open>p\<close> is not the last one, and the value returned holds exactly the
  items of the pages whose fetch did not throw, in the order of the pages.
\<close>

theorem getAllChapters_page_error_skipped:
  "(\<forall>msg. snd (getAllChapters api bookId totalEpisodes) \<noteq> Inl (RequestFailed msg)) \<and>
   (Fetch p s \<in> set (fst (getAllChapters api bookId totalEpisodes)) \<and>
    getChapters api bookId s = Inl e \<longrightarrow>
      ConsoleError p e \<in> set (fst (getAllChapters api bookId totalEpisodes)) \<and>
      (p < nat \<lceil>real totalEpisodes / 6\<rceil> \<longrightarrow>
         Fetch (p + 1) (1 + p * 6) \<in> set (fst (getAllChapters api bookId totalEpisodes))) \<and>
      snd (getAllChapters api bookId totalEpisodes) =
        Inr (concat (map (\<lambda>q. case getChapters api bookId (1 + (q - 1) * 6) of
                                  Inr cs \<Rightarrow> cs | Inl _ \<Rightarrow> [])
               (filter (\<lambda>q. \<not> isl (getChapters api bookId (1 + (q - 1) * 6)))
                  (pagesOf (fst (getAllChapters api bookId totalEpisodes)))))))"
proof (cases "bookId = []")
  case True
  then show ?thesis by (simp add: getAllChapters_def)
next
  case False
  let ?T = "totalPagesOf totalEpisodes"
  let ?ps = "pagesUntilEmpty api bookId 1 ?T"
  let ?it = "\<lambda>q. case getChapters api bookId (1 + (q - 1) * 6) of Inr cs \<Rightarrow> cs | Inl _ \<Rightarrow> []"
  have cf: "getAllChapters api bookId totalEpisodes =
     (concat (map (pageEvents api bookId ?T) ?ps), Inr (concat (map (pageItems api bookId) ?ps)))"
    using False by (rule getAllChapters_closed_form)
  have pages: "pagesOf (fst (getAllChapters api bookId totalEpisodes)) = ?ps"
    by (simp add: cf pagesOf_concat_pageEvents)
  have items: "pageItems api bookId = ?it"
    by (rule ext) (simp add: pageItems_def startIndexOf_def)
  have skip: "concat (map ?it (filter (\<lambda>q. \<not> isl (getChapters api bookId (1 + (q - 1) * 6))) qs))
      = concat (map ?it qs)" for qs
    by (induction qs) (auto split: sum.splits)
  have res: "snd (getAllChapters api bookId totalEpisodes) =
      Inr (concat (map ?it (filter (\<lambda>q. \<not> isl (getChapters api bookId (1 + (q - 1) * 6)))
        (pagesOf (fst (getAllChapters api bookId totalEpisodes))))))"
    unfolding pages skip by (simp add: cf items)
  have never: "\<forall>msg. snd (getAllChapters api bookId totalEpisodes) \<noteq> Inl (RequestFailed msg)"
    by (simp add: cf)
  have err: "ConsoleError p e \<in> set (fst (getAllChapters api bookId totalEpisodes)) \<and>
      (p < nat \<lceil>real totalEpisodes / 6\<rceil> \<longrightarrow>
         Fetch (p + 1) (1 + p * 6) \<in> set (fst (getAllChapters api bookId totalEpisodes)))"
    if f: "Fetch p s \<in> set (fst (getAllChapters api bookId totalEpisodes))"
      and t: "getChapters api bookId s = Inl e"
  proof -
    from f have mem: "p \<in> set ?ps" and s: "s = startIndexOf p"
      unfolding cf fst_conv Fetch_in_pageEvents by simp_all
    from mem s t have c: "ConsoleError p e \<in> set (fst (getAllChapters api bookId totalEpisodes))"
      unfolding cf fst_conv by (intro ConsoleError_in_pageEvents) simp_all
    have n: "Fetch (p + 1) (1 + p * 6) \<in> set (fst (getAllChapters api bookId totalEpisodes))"
      if "p < nat \<lceil>real totalEpisodes / 6\<rceil>"
    proof -
      from t s have "getChapters api bookId (startIndexOf p) \<noteq> Inr []" by simp
      with mem that have "Suc p \<in> set ?ps"
        by (intro pagesUntilEmpty_next) (simp_all add: totalPagesOf_def)
      then show ?thesis unfolding cf fst_conv Fetch_in_pageEvents by (simp add: startIndexOf_def)
    qed
    from c n show ?thesis by blast
  qed
  from never err res show ?thesis by blast
qed

lemma flakyApi_run:
  "getAllChapters flakyApi ''b1'' 13 =
     ([Fetch 1 1, Delay 100, Fetch 2 7, ConsoleError 2 (RequestFailed ''timeout''), Fetch 3 13],
      Inr ([1..<7] @ [13..<19]))"
  by (simp add: getAllChapters_def totalPagesOf_div pageLoop.simps startIndexOf_def
      getChapters_def flakyApi_def)

theorem getAllChapters_page_error_skipped_witness:
  "Fetch 2 7 \<in> set (fst (getAllChapters flakyApi ''b1'' 13)) \<and>
   getChapters flakyApi ''b1'' 7 = Inl (RequestFailed ''timeout'') \<and>
   ConsoleError 2 (RequestFailed ''timeout'') \<in> set (fst (getAllChapters flakyApi ''b1'' 13)) \<and>
   (2::nat) < nat \<lceil>real (13::nat) / 6\<rceil> \<and>
   Fetch 3 13 \<in> set (fst (getAllChapters flakyApi ''b1'' 13)) \<and>
   snd (getAllChapters flakyApi ''b1'' 13) = Inr ([1..<7] @ [13..<19])"
  using getAllChapters_page_error_skipped
    [of flakyApi "''b1''" 13 2 7 "RequestFailed ''timeout''"]
  by (simp add: flakyApi_run) (simp add: getChapters_def flakyApi_def)

section \<open>Properties of the durable sink buffer\<close>

lemma resumeFlush_config: "sameConfig (resumeFlush k lg) lg"
  by (simp add: sameConfig_def resumeFlush_def Let_def split: prod.splits)

lemma snapshotAndClear_config: "sameConfig (snapshotAndClear lg) lg"
  by (simp add: sameConfig_def snapshotAndClear_def Let_def)

lemma flushLogs_config: "sameConfig (flushLogs lg) lg"
  using resumeFlush_config [of "length (flushes lg)" "snapshotAndClear lg"]
    snapshotAndClear_config [of lg]
  by (simp add: sameConfig_def flushLogs_def)

lemma flushLogs_nonempty:
  assumes "logBuffer lg \<noteq> []"
  shows "flushLogs lg =
           lg\<lparr>logBuffer := [], flushes := flushes lg @ [(logBuffer lg, 1)],
              writeCalls := writeCalls lg @ [hd (logBuffer lg)]\<rparr>"
  using assms
  by (simp add: flushLogs_def snapshotAndClear_def resumeFlush_def Let_def hd_conv_nth)

lemma logToConsole_config: "sameConfig (logToConsole entry lg) lg"
  by (simp add: sameConfig_def logToConsole_def)

lemma processLog_config: "sameConfig (processLog lvl msg lg) lg"
  using flushLogs_config
    [of "(logToConsole \<lparr>level = lvl, message = msg\<rparr> lg)
           \<lparr>logBuffer := logBuffer (logToConsole \<lparr>level = lvl, message = msg\<rparr> lg) @
              [\<lparr>level = lvl, message = msg\<rparr>]\<rparr>"]
    logToConsole_config [of "\<lparr>level = lvl, message = msg\<rparr>" lg]
  by (simp add: sameConfig_def processLog_def Let_def)

lemma step_config: "sameConfig (step a lg) lg"
  by (cases a) (simp_all add: flushLogs_config resumeFlush_config processLog_config)

lemma pushedBy_cong: "sameConfig a b \<Longrightarrow> pushedBy a acts = pushedBy b acts"
  by (simp add: pushedBy_def sameConfig_def shouldLog_def cong: action.case_cong)

lemma pushedBy_append: "pushedBy lg (xs @ ys) = pushedBy lg xs @ pushedBy lg ys"
  by (simp add: pushedBy_def List.map_filter_def)

lemma run_snoc: "run (acts @ [a]) lg = step a (run acts lg)"
  by (simp add: run_def)

lemma run_config: "sameConfig (run acts lg) lg"
proof (induction acts rule: rev_induct)
  case Nil
  then show ?case by (simp add: run_def sameConfig_def)
next
  case (snoc a acts)
  have "sameConfig (step a (run acts lg)) (run acts lg)" by (rule step_config)
  with snoc show ?case by (simp add: run_snoc sameConfig_def)
qed

lemma flushLogs_snapshots:
  "concat (map fst (flushes (flushLogs lg))) @ logBuffer (flushLogs lg) =
   concat (map fst (flushes lg)) @ logBuffer lg"
  by (cases "logBuffer lg = []") (simp_all add: flushLogs_nonempty, simp add: flushLogs_def)

lemma resumeFlush_snapshots:
  "map fst (flushes (resumeFlush k lg)) = map fst (flushes lg) \<and>
   logBuffer (resumeFlush k lg) = logBuffer lg"
  by (auto simp: resumeFlush_def Let_def map_update list_update_same_conv split: prod.splits)

lemma processLog_snapshots:
  "concat (map fst (flushes (processLog lvl msg lg))) @ logBuffer (processLog lvl msg lg) =
   concat (map fst (flushes lg)) @ logBuffer lg @ pushedBy lg [Log lvl msg]"
  by (simp add: processLog_def flushLogs_nonempty logToConsole_def Let_def pushedBy_def
      List.map_filter_simps)

lemma step_snapshots:
  "concat (map fst (flushes (step a lg))) @ logBuffer (step a lg) =
   concat (map fst (flushes lg)) @ logBuffer lg @ pushedBy lg [a]"
proof (cases a)
  case (Log lvl msg)
  then show ?thesis by (simp add: processLog_snapshots)
next
  case Timer
  then show ?thesis by (simp add: flushLogs_snapshots pushedBy_def List.map_filter_simps)
next
  case (Resume k)
  then show ?thesis by (simp add: resumeFlush_snapshots pushedBy_def List.map_filter_simps)
qed

lemma run_snapshots:
  "concat (map fst (flushes (run acts lg))) @ logBuffer (run acts lg) =
   concat (map fst (flushes lg)) @ logBuffer lg @ pushedBy lg acts"
proof (induction acts rule: rev_induct)
  case Nil
  then show ?case by (simp add: run_def pushedBy_def List.map_filter_simps)
next
  case (snoc a acts)
  have "pushedBy (run acts lg) [a] = pushedBy lg [a]"
    by (rule pushedBy_cong) (rule run_config)
  with snoc step_snapshots [of a "run acts lg"] show ?case
    by (simp add: run_snoc pushedBy_append)
qed

lemma flushLogs_framesOk: "framesOk lg \<Longrightarrow> framesOk (flushLogs lg)"
  by (cases "logBuffer lg")
     (simp_all add: flushLogs_nonempty framesOk_def handedOver_def, simp add: flushLogs_def)

lemma mset_concat_update:
  assumes "k < length frs"
  shows "mset (concat (map f (frs[k := x]))) + mset (f (frs ! k)) =
         mset (concat (map f frs)) + mset (f x)"
  using assms
proof (induction frs arbitrary: k)
  case Nil
  then show ?case by simp
next
  case (Cons fr frs)
  then show ?case by (cases k) (simp_all add: ac_simps)
qed

lemma resumeFlush_framesOk:
  assumes "framesOk lg"
  shows "framesOk (resumeFlush k lg)"
proof (cases "k < length (flushes lg)")
  case False
  with assms show ?thesis by (simp add: resumeFlush_def)
next
  case True
  obtain logs i where fr: "flushes lg ! k = (logs, i)" by (cases "flushes lg ! k")
  show ?thesis
  proof (cases "i < length logs")
    case False
    with assms True fr show ?thesis by (simp add: resumeFlush_def)
  next
    case lt: True
    have r: "resumeFlush k lg = lg\<lparr>writeCalls := writeCalls lg @ [logs ! i],
                    flushes := (flushes lg)[k := (logs, i + 1)]\<rparr>"
      using True fr lt by (simp add: resumeFlush_def)
    have bound: "\<forall>fr\<in>set ((flushes lg)[k := (logs, i + 1)]). snd fr \<le> length (fst fr)"
      using assms lt by (auto simp: framesOk_def dest!: set_update_subset_insert[THEN subsetD])
    have "mset (concat (map handedOver ((flushes lg)[k := (logs, i + 1)]))) + mset (handedOver (logs, i))
        = mset (concat (map handedOver (flushes lg))) + mset (handedOver (logs, i + 1))"
      using mset_concat_update [OF True, of handedOver "(logs, i + 1)"] fr by simp
    moreover have "mset (handedOver (logs, i + 1)) = mset (handedOver (logs, i)) + {#logs ! i#}"
      using lt by (simp add: handedOver_def take_Suc_conv_app_nth)
    ultimately have "mset (concat (map handedOver ((flushes lg)[k := (logs, i + 1)])))
        = mset (concat (map handedOver (flushes lg))) + {#logs ! i#}"
      by (simp add: ac_simps)
    with assms bound show ?thesis
      by (simp add: r framesOk_def)
  qed
qed

lemma processLog_framesOk:
  assumes "framesOk lg"
  shows "framesOk (processLog lvl msg lg)"
proof -
  let ?e = "\<lparr>level = lvl, message = msg\<rparr>"
  let ?lg2 = "(logToConsole ?e lg)\<lparr>logBuffer := logBuffer (logToConsole ?e lg) @ [?e]\<rparr>"
  have 1: "framesOk (logToConsole ?e lg)"
    using assms by (simp add: framesOk_def logToConsole_def)
  then have 2: "framesOk ?lg2" by (simp add: framesOk_def)
  then have "framesOk (flushLogs ?lg2)" by (rule flushLogs_framesOk)
  with assms 1 2 show ?thesis by (simp add: processLog_def Let_def)
qed

lemma step_framesOk: "framesOk lg \<Longrightarrow> framesOk (step a lg)"
  by (cases a) (simp_all add: flushLogs_framesOk resumeFlush_framesOk processLog_framesOk)

lemma run_framesOk: "framesOk lg \<Longrightarrow> framesOk (run acts lg)"
  by (induction acts rule: rev_induct) (simp_all add: run_def step_framesOk)
lemma newLogger_framesOk: "framesOk (newLogger lvl server fileLogging consoleLogging)"
  by (simp add: framesOk_def newLogger_def)

lemma processLog_below_error:
  assumes "levelRank lvl < levelRank ERROR"
  shows "flushes (processLog lvl msg lg) = flushes lg \<and>
         writeCalls (processLog lvl msg lg) = writeCalls lg \<and>
         logBuffer (processLog lvl msg lg) = logBuffer lg @ pushedBy lg [Log lvl msg]"
  using assms
  by (simp add: processLog_def logToConsole_def Let_def pushedBy_def List.map_filter_simps)

lemma processLog_error_pushed:
  assumes "levelRank ERROR \<le> levelRank lvl" and "pushedBy lg [Log lvl msg] \<noteq> []"
  shows "logBuffer (processLog lvl msg lg) = [] \<and>
         flushes (processLog lvl msg lg) =
           flushes lg @ [(logBuffer lg @ pushedBy lg [Log lvl msg], 1)] \<and>
         writeCalls (processLog lvl msg lg) =
           writeCalls lg @ [hd (logBuffer lg @ pushedBy lg [Log lvl msg])]"
  using assms
  by (simp add: processLog_def flushLogs_nonempty logToConsole_def Let_def pushedBy_def
      List.map_filter_simps split: if_splits)

lemma processLog_not_pushed:
  assumes "pushedBy lg [Log lvl msg] = []"
  shows "logBuffer (processLog lvl msg lg) = logBuffer lg \<and>
         flushes (processLog lvl msg lg) = flushes lg \<and>
         writeCalls (processLog lvl msg lg) = writeCalls lg"
proof -
  from assms have "\<not> (shouldLog lg lvl \<and> isServer lg \<and> enableFileLogging lg)"
    by (simp add: pushedBy_def List.map_filter_simps split: if_splits)
  then show ?thesis
    by (auto simp: processLog_def logToConsole_def Let_def)
qed

lemma processLog_keeps_frames:
  "take (length (flushes lg)) (flushes (processLog lvl msg lg)) = flushes lg"
  by (simp add: processLog_def flushLogs_nonempty logToConsole_def Let_def)

text \<open>
  C7. \<open>flushLogs\<close> on a non-empty buffer first takes the whole buffer as its snapshot
  and leaves the buffer empty, without a call of \<open>writeToFile\<close> (\<open>snapshotAndClear\<close>), and
  only then, in the same turn, makes its first call of \<open>writeToFile\<close>, for the first
  entry of the snapshot; on an empty buffer it does nothing. A resumption of a suspended
  flush alters neither a snapshot nor the buffer. For every sequence of \<open>processLog\<close>
  calls, timer flushes and resumptions of suspended flushes, started on a new logger:
  the snapshots of all the drains, in the order taken, followed by the buffer, are
  exactly the entries pushed, in the order pushed, so each pushed entry lies in the
  snapshot of one drain or is still buffered, never in two snapshots; no loop runs past
  its snapshot, and the calls of \<open>writeToFile\<close> are for the entries the loops have
  passed, each once. A \<open>processLog\<close> call never changes an existing frame; below ERROR it
  only appends its entry to the buffer, where the entry waits for a later drain; at
  ERROR or FATAL, when it pushes its entry, it drains the buffer with that entry last
  in the snapshot.
\<close>

theorem flushLogs_snapshot_once:
  "concat (map fst (flushes (run acts (newLogger lvl server fileLogging consoleLogging)))) @
     logBuffer (run acts (newLogger lvl server fileLogging consoleLogging))
     = pushedBy (newLogger lvl server fileLogging consoleLogging) acts \<and>
   (\<forall>fr\<in>set (flushes (run acts (newLogger lvl server fileLogging consoleLogging))).
      snd fr \<le> length (fst fr)) \<and>
   mset (writeCalls (run acts (newLogger lvl server fileLogging consoleLogging))) =
     mset (concat (map handedOver
       (flushes (run acts (newLogger lvl server fileLogging consoleLogging))))) \<and>
   (logBuffer lg \<noteq> [] \<longrightarrow>
      flushLogs lg = resumeFlush (length (flushes lg)) (snapshotAndClear lg) \<and>
      logBuffer (snapshotAndClear lg) = [] \<and>
      flushes (snapshotAndClear lg) = flushes lg @ [(logBuffer lg, 0)] \<and>
      writeCalls (snapshotAndClear lg) = writeCalls lg \<and>
      logBuffer (flushLogs lg) = [] \<and>
      flushes (flushLogs lg) = flushes lg @ [(logBuffer lg, 1)] \<and>
      writeCalls (flushLogs lg) = writeCalls lg @ [hd (logBuffer lg)]) \<and>
   (logBuffer lg = [] \<longrightarrow> flushLogs lg = lg) \<and>
   map fst (flushes (resumeFlush k lg)) = map fst (flushes lg) \<and>
   logBuffer (resumeFlush k lg) = logBuffer lg \<and>
   (levelRank lvl' < levelRank ERROR \<longrightarrow>
      flushes (processLog lvl' msg lg) = flushes lg \<and>
      writeCalls (processLog lvl' msg lg) = writeCalls lg \<and>
      logBuffer (processLog lvl' msg lg) = logBuffer lg @ pushedBy lg [Log lvl' msg]) \<and>
   (levelRank ERROR \<le> levelRank lvl' \<and> pushedBy lg [Log lvl' msg] \<noteq> [] \<longrightarrow>
      logBuffer (processLog lvl' msg lg) = [] \<and>
      flushes (processLog lvl' msg lg) =
        flushes lg @ [(logBuffer lg @ pushedBy lg [Log lvl' msg], 1)] \<and>
      writeCalls (processLog lvl' msg lg) =
        writeCalls lg @ [hd (logBuffer lg @ pushedBy lg [Log lvl' msg])]) \<and>
   (pushedBy lg [Log lvl' msg] = [] \<longrightarrow>
      logBuffer (processLog lvl' msg lg) = logBuffer lg \<and>
      flushes (processLog lvl' msg lg) = flushes lg \<and>
      writeCalls (processLog lvl' msg lg) = writeCalls lg) \<and>
   take (length (flushes lg)) (flushes (processLog lvl' msg lg)) = flushes lg"
proof -
  let ?s = "run acts (newLogger lvl server fileLogging consoleLogging)"
  have a: "concat (map fst (flushes ?s)) @ logBuffer ?s
      = pushedBy (newLogger lvl server fileLogging consoleLogging) acts"
    using run_snapshots [of acts "newLogger lvl server fileLogging consoleLogging"]
    by (simp add: newLogger_def)
  have "framesOk ?s"
    by (rule run_framesOk) (rule newLogger_framesOk)
  then have b: "\<forall>fr\<in>set (flushes ?s). snd fr \<le> length (fst fr)"
    and c: "mset (writeCalls ?s) = mset (concat (map handedOver (flushes ?s)))"
    by (simp_all add: framesOk_def)
  have d: "logBuffer lg \<noteq> [] \<longrightarrow>
      flushLogs lg = resumeFlush (length (flushes lg)) (snapshotAndClear lg) \<and>
      logBuffer (snapshotAndClear lg) = [] \<and>
      flushes (snapshotAndClear lg) = flushes lg @ [(logBuffer lg, 0)] \<and>
      writeCalls (snapshotAndClear lg) = writeCalls lg \<and>
      logBuffer (flushLogs lg) = [] \<and>
      flushes (flushLogs lg) = flushes lg @ [(logBuffer lg, 1)] \<and>
      writeCalls (flushLogs lg) = writeCalls lg @ [hd (logBuffer lg)]"
  proof
    assume ne: "logBuffer lg \<noteq> []"
    then have "flushLogs lg = resumeFlush (length (flushes lg)) (snapshotAndClear lg)"
      by (simp add: flushLogs_def)
    moreover have "logBuffer (snapshotAndClear lg) = [] \<and>
        flushes (snapshotAndClear lg) = flushes lg @ [(logBuffer lg, 0)] \<and>
        writeCalls (snapshotAndClear lg) = writeCalls lg"
      by (simp add: snapshotAndClear_def)
    moreover have "logBuffer (flushLogs lg) = [] \<and>
        flushes (flushLogs lg) = flushes lg @ [(logBuffer lg, 1)] \<and>
        writeCalls (flushLogs lg) = writeCalls lg @ [hd (logBuffer lg)]"
      using ne by (simp add: flushLogs_nonempty)
    ultimately show "flushLogs lg = resumeFlush (length (flushes lg)) (snapshotAndClear lg) \<and>
      logBuffer (snapshotAndClear lg) = [] \<and>
      flushes (snapshotAndClear lg) = flushes lg @ [(logBuffer lg, 0)] \<and>
      writeCalls (snapshotAndClear lg) = writeCalls lg \<and>
      logBuffer (flushLogs lg) = [] \<and>
      flushes (flushLogs lg) = flushes lg @ [(logBuffer lg, 1)] \<and>
      writeCalls (flushLogs lg) = writeCalls lg @ [hd (logBuffer lg)]"
      by blast
  qed
  have e: "logBuffer lg = [] \<longrightarrow> flushLogs lg = lg"
    by (simp add: flushLogs_def)
  have r: "map fst (flushes (resumeFlush k lg)) = map fst (flushes lg) \<and>
      logBuffer (resumeFlush k lg) = logBuffer lg"
    by (rule resumeFlush_snapshots)
  have f: "levelRank lvl' < levelRank ERROR \<longrightarrow>
      flushes (processLog lvl' msg lg) = flushes lg \<and>
      writeCalls (processLog lvl' msg lg) = writeCalls lg \<and>
      logBuffer (processLog lvl' msg lg) = logBuffer lg @ pushedBy lg [Log lvl' msg]"
    using processLog_below_error [of lvl' msg lg] by blast
  have g: "levelRank ERROR \<le> levelRank lvl' \<and> pushedBy lg [Log lvl' msg] \<noteq> [] \<longrightarrow>
      logBuffer (processLog lvl' msg lg) = [] \<and>
      flushes (processLog lvl' msg lg) =
        flushes lg @ [(logBuffer lg @ pushedBy lg [Log lvl' msg], 1)] \<and>
      writeCalls (processLog lvl' msg lg) =
        writeCalls lg @ [hd (logBuffer lg @ pushedBy lg [Log lvl' msg])]"
    using processLog_error_pushed [of lvl' lg msg] by blast
  have h: "pushedBy lg [Log lvl' msg] = [] \<longrightarrow>
      logBuffer (processLog lvl' msg lg) = logBuffer lg \<and>
      flushes (processLog lvl' msg lg) = flushes lg \<and>
      writeCalls (processLog lvl' msg lg) = writeCalls lg"
    using processLog_not_pushed [of lg lvl' msg] by blast
  have i: "take (length (flushes lg)) (flushes (processLog lvl' msg lg)) = flushes lg"
    by (rule processLog_keeps_frames)
  from a b c d e r f g h i show ?thesis by blast
qed

lemma exampleRun_state:
  "run exampleRun (newLogger INFO True True True) =
     \<lparr>logLevel = INFO, isServer = True, enableFileLogging = True,
      enableConsoleLogging = True, logBuffer = [],
      flushes = [([\<lparr>level = INFO, message = ''a''\<rparr>, \<lparr>level = ERROR, message = ''b''\<rparr>], 2),
                 ([\<lparr>level = INFO, message = ''c''\<rparr>], 1)],
      writeCalls = [\<lparr>level = INFO, message = ''a''\<rparr>, \<lparr>level = INFO, message = ''c''\<rparr>,
                    \<lparr>level = ERROR, message = ''b''\<rparr>],
      consoleOut = [\<lparr>level = INFO, message = ''a''\<rparr>, \<lparr>level = ERROR, message = ''b''\<rparr>,
                    \<lparr>level = INFO, message = ''c''\<rparr>]\<rparr>"
  by (simp add: exampleRun_def run_def newLogger_def processLog_def shouldLog_def
      logToConsole_def flushLogs_def snapshotAndClear_def resumeFlush_def Let_def)

lemma exampleRun_prefix_state:
  "run [Log INFO ''a''] (newLogger INFO True True True) =
     \<lparr>logLevel = INFO, isServer = True, enableFileLogging = True,
      enableConsoleLogging = True, logBuffer = [\<lparr>level = INFO, message = ''a''\<rparr>],
      flushes = [], writeCalls = [],
      consoleOut = [\<lparr>level = INFO, message = ''a''\<rparr>]\<rparr>"
  by (simp add: run_def newLogger_def processLog_def shouldLog_def logToConsole_def Let_def)

theorem flushLogs_snapshot_once_witness:
  "flushes (run exampleRun (newLogger INFO True True True)) =
     [([\<lparr>level = INFO, message = ''a''\<rparr>, \<lparr>level = ERROR, message = ''b''\<rparr>], 2),
      ([\<lparr>level = INFO, message = ''c''\<rparr>], 1)] \<and>
   pushedBy (newLogger INFO True True True) exampleRun =
     [\<lparr>level = INFO, message = ''a''\<rparr>, \<lparr>level = ERROR, message = ''b''\<rparr>,
      \<lparr>level = INFO, message = ''c''\<rparr>] \<and>
   logBuffer (run exampleRun (newLogger INFO True True True)) = [] \<and>
   flushLogs (run exampleRun (newLogger INFO True True True)) =
     run exampleRun (newLogger INFO True True True) \<and>
   levelRank WARN < levelRank ERROR \<and>
   logBuffer (processLog WARN ''d'' (run exampleRun (newLogger INFO True True True))) =
     [\<lparr>level = WARN, message = ''d''\<rparr>] \<and>
   logBuffer (run [Log INFO ''a''] (newLogger INFO True True True)) \<noteq> [] \<and>
   logBuffer (flushLogs (run [Log INFO ''a''] (newLogger INFO True True True))) = [] \<and>
   writeCalls (snapshotAndClear (run [Log INFO ''a''] (newLogger INFO True True True))) = [] \<and>
   writeCalls (flushLogs (run [Log INFO ''a''] (newLogger INFO True True True))) =
     [\<lparr>level = INFO, message = ''a''\<rparr>] \<and>
   levelRank ERROR \<le> levelRank FATAL \<and>
   pushedBy (run [Log INFO ''a''] (newLogger INFO True True True)) [Log FATAL ''e''] \<noteq> [] \<and>
   flushes (processLog FATAL ''e'' (run [Log INFO ''a''] (newLogger INFO True True True))) =
     [([\<lparr>level = INFO, message = ''a''\<rparr>, \<lparr>level = FATAL, message = ''e''\<rparr>], 1)] \<and>
   pushedBy (newLogger INFO True True True) [Log DEBUG ''f''] = [] \<and>
   logBuffer (processLog DEBUG ''f'' (newLogger INFO True True True)) = []"
  using flushLogs_snapshot_once
      [of exampleRun INFO True True True "run exampleRun (newLogger INFO True True True)"
          0 WARN "''d''"]
    flushLogs_snapshot_once
      [of exampleRun INFO True True True "run [Log INFO ''a''] (newLogger INFO True True True)"
          0 FATAL "''e''"]
    flushLogs_snapshot_once
      [of exampleRun INFO True True True "newLogger INFO True True True" 0 DEBUG "''f''"]
  by (simp add: exampleRun_state exampleRun_prefix_state)
     (simp add: exampleRun_def newLogger_def shouldLog_def pushedBy_def
        List.map_filter_simps processLog_def logToConsole_def flushLogs_def
        snapshotAndClear_def resumeFlush_def handedOver_def Let_def)

section \<open>Properties of the redaction\<close>

lemma sanitizeRecursive_deep:
  "5 < d \<Longrightarrow> sanitizeRecursive h v d = (VStr ''[Object too deep]'', h)"
  by (simp add: sanitizeRecursive.simps)

lemma sanitizeRecursive_prim:
  "\<not> isObject v \<Longrightarrow> \<not> 5 < d \<Longrightarrow> sanitizeRecursive h v d = (v, h)"
  by (cases v) (simp_all add: sanitizeRecursive.simps)

lemma sanitizeRecursive_dangling:
  "lookup h a = None \<Longrightarrow> \<not> 5 < d \<Longrightarrow> sanitizeRecursive h (VRef a) d = (VRef a, h)"
  by (simp add: sanitizeRecursive.simps)

lemma sanitizeRecursive_arr:
  "lookup h a = Some (Arr items) \<Longrightarrow> \<not> 5 < d \<Longrightarrow>
   sanitizeRecursive h (VRef a) d =
     (VRef (length (snd (sanitizeItems h items d))),
      snd (sanitizeItems h items d) @ [Arr (fst (sanitizeItems h items d))])"
  by (simp add: sanitizeRecursive.simps split_beta)

lemma sanitizeRecursive_obj:
  "lookup h a = Some (Obj es) \<Longrightarrow> \<not> 5 < d \<Longrightarrow>
   sanitizeRecursive h (VRef a) d =
     (VRef (length (snd (sanitizeEntries h es d))),
      snd (sanitizeEntries h es d) @ [Obj (fst (sanitizeEntries h es d))])"
  by (simp add: sanitizeRecursive.simps split_beta)

lemma sanitizeItems_Cons:
  "sanitizeItems h (item # items) d =
     (fst (sanitizeRecursive h item (d + 1)) #
        fst (sanitizeItems (snd (sanitizeRecursive h item (d + 1))) items d),
      snd (sanitizeItems (snd (sanitizeRecursive h item (d + 1))) items d))"
  by (simp add: split_beta del: sanitizeRecursive.simps)

lemma sanitizeEntries_Cons:
  "sanitizeEntries h ((key, v) # rest) d =
     (if isSensitive key then
        (setProperty key (VStr ''[REDACTED]'') (fst (sanitizeEntries h rest d)),
         snd (sanitizeEntries h rest d))
      else if isObject v then
        (setProperty key (fst (sanitizeRecursive h v (d + 1)))
           (fst (sanitizeEntries (snd (sanitizeRecursive h v (d + 1))) rest d)),
         snd (sanitizeEntries (snd (sanitizeRecursive h v (d + 1))) rest d))
      else
        (setProperty key v (fst (sanitizeEntries h rest d)), snd (sanitizeEntries h rest d)))"
  by (simp add: split_beta del: sanitizeRecursive.simps)

lemma setProperty_all:
  "list_all P (setProperty key v r) = ((key \<noteq> ''__proto__'' \<longrightarrow> P (key, v)) \<and> list_all P r)"
  by (simp add: setProperty_def)

lemma setProperty_all_snd:
  "list_all P (map snd (setProperty key v r)) =
     ((key \<noteq> ''__proto__'' \<longrightarrow> P v) \<and> list_all P (map snd r))"
  by (simp add: setProperty_def)

declare sanitizeRecursive.simps [simp del]
declare sanitizeItems.simps(2) [simp del]
declare sanitizeEntries.simps(2) [simp del]

lemma sanitize_prefix:
  "prefix h (snd (sanitizeRecursive h obj d))"
  "prefix h (snd (sanitizeItems h items d))"
  "prefix h (snd (sanitizeEntries h es d))"
proof (induction h obj d and h items d and h es d
    rule: sanitizeRecursive_sanitizeItems_sanitizeEntries.induct)
  case (1 h obj depth)
  show ?case
  proof (cases "5 < depth")
    case True
    then show ?thesis by (simp add: sanitizeRecursive_deep)
  next
    case False
    show ?thesis
    proof (cases obj)
      case (VRef a)
      show ?thesis
      proof (cases "lookup h a")
        case None
        with False VRef show ?thesis by (simp add: sanitizeRecursive_dangling)
      next
        case (Some ob)
        show ?thesis
        proof (cases ob)
          case (Arr items)
          with "1.IH"(1) False VRef Some have "prefix h (snd (sanitizeItems h items depth))"
            by simp
          then show ?thesis
            using False VRef Some Arr
            by (simp add: sanitizeRecursive_arr)
        next
          case (Obj es)
          with "1.IH"(2) False VRef Some have "prefix h (snd (sanitizeEntries h es depth))"
            by simp
          then show ?thesis
            using False VRef Some Obj
            by (simp add: sanitizeRecursive_obj)
        qed
      qed
    qed (use False in \<open>simp_all add: sanitizeRecursive_prim\<close>)
  qed
next
  case (2 h depth)
  then show ?case by simp
next
  case (3 h item items depth)
  have a: "prefix h (snd (sanitizeRecursive h item (depth + 1)))"
    by (rule "3.IH"(1))
  have b: "prefix (snd (sanitizeRecursive h item (depth + 1)))
      (snd (sanitizeItems (snd (sanitizeRecursive h item (depth + 1))) items depth))"
    by (rule "3.IH"(2)) (simp_all add: prod_eq_iff)
  from a b show ?case
    unfolding sanitizeItems_Cons by simp
next
  case (4 h depth)
  then show ?case by simp
next
  case (5 h key v rest depth)
  show ?case
  proof (cases "isSensitive key")
    case True
    with "5.IH"(1) show ?thesis by (simp add: sanitizeEntries_Cons)
  next
    case ns: False
    show ?thesis
    proof (cases "isObject v")
      case True
      have a: "prefix h (snd (sanitizeRecursive h v (depth + 1)))"
        using "5.IH"(2) ns True by simp
      have b: "prefix (snd (sanitizeRecursive h v (depth + 1)))
          (snd (sanitizeEntries (snd (sanitizeRecursive h v (depth + 1))) rest depth))"
        using ns True by (intro "5.IH"(3)) (simp_all add: prod_eq_iff)
      from a b ns True show ?thesis
        unfolding sanitizeEntries_Cons by simp
    next
      case False
      with "5.IH"(4) ns show ?thesis
        by (simp add: sanitizeEntries_Cons)
    qed
  qed
qed

lemma prefix_nth: "prefix xs ys \<Longrightarrow> i < length xs \<Longrightarrow> ys ! i = xs ! i"
  by (auto simp: prefix_def nth_append)

lemma wfVal_mono: "wfVal h v \<Longrightarrow> prefix h h' \<Longrightarrow> wfVal h' v"
  by (cases v) (auto dest: prefix_length_le)

lemma wfVals_mono: "list_all (wfVal h) vs \<Longrightarrow> prefix h h' \<Longrightarrow> list_all (wfVal h') vs"
  by (auto simp: list_all_iff intro: wfVal_mono)

lemma cleanVal_mono: "cleanVal m v \<Longrightarrow> n \<le> m \<Longrightarrow> cleanVal n v"
  by (cases v) auto

lemma cleanObj_mono: "cleanObj m ob \<Longrightarrow> n \<le> m \<Longrightarrow> cleanObj n ob"
  by (cases ob) (auto simp: list_all_iff intro: cleanVal_mono)

lemma wfHeap_lookup:
  "wfHeap h \<Longrightarrow> lookup h a = Some ob \<Longrightarrow> list_all (wfVal h) (valuesOf ob)"
  by (auto simp: wfHeap_def lookup_def list_all_iff split: if_splits)

lemma wfHeap_snoc:
  assumes "wfHeap h" and "list_all (wfVal (h @ [ob])) (valuesOf ob)"
  shows "wfHeap (h @ [ob])"
proof -
  have "list_all (wfVal (h @ [ob])) (valuesOf x)" if "x \<in> set h" for x
  proof -
    from assms(1) that have "list_all (wfVal h) (valuesOf x)"
      by (simp add: wfHeap_def list_all_iff)
    then show ?thesis by (rule wfVals_mono) simp
  qed
  with assms(2) show ?thesis by (simp add: wfHeap_def list_all_iff)
qed

lemma sanitized_refl: "wfHeap h \<Longrightarrow> sanitized h h"
  by (auto simp: sanitized_def)

lemma sanitized_length: "sanitized h h' \<Longrightarrow> length h \<le> length h'"
  by (simp add: sanitized_def prefix_length_le)

lemma sanitized_trans:
  assumes "sanitized h h1" and "sanitized h1 h2"
  shows "sanitized h h2"
proof -
  from assms have p: "prefix h h1" "prefix h1 h2" and le: "length h \<le> length h1"
    by (simp_all add: sanitized_def prefix_length_le)
  have "cleanObj (length h) (h2 ! a)" if a: "length h \<le> a" "a < length h2" for a
  proof (cases "a < length h1")
    case True
    with p have "h2 ! a = h1 ! a" by (simp add: prefix_nth)
    with assms(1) a True show ?thesis by (simp add: sanitized_def)
  next
    case False
    with assms(2) a have "cleanObj (length h1) (h2 ! a)" by (simp add: sanitized_def)
    then show ?thesis using le by (rule cleanObj_mono)
  qed
  with p assms(2) show ?thesis
    by (auto simp: sanitized_def)
qed

lemma sanitized_snoc:
  assumes "sanitized h h'" and "cleanObj (length h) ob"
    and "list_all (wfVal h') (valuesOf ob)"
  shows "sanitized h (h' @ [ob])"
proof -
  have "list_all (wfVal (h' @ [ob])) (valuesOf ob)"
    using assms(3) by (rule wfVals_mono) simp
  with assms(1) have wf: "wfHeap (h' @ [ob])"
    by (simp add: sanitized_def wfHeap_snoc)
  have "cleanObj (length h) ((h' @ [ob]) ! a)" if "length h \<le> a" "a < length (h' @ [ob])" for a
    using that assms(1,2) by (cases "a < length h'") (auto simp: sanitized_def nth_append)
  with assms(1) wf show ?thesis
    by (auto simp: sanitized_def)
qed

lemma sanitize_clean:
  "wfHeap h \<Longrightarrow> wfVal h obj \<Longrightarrow>
     sanitized h (snd (sanitizeRecursive h obj d)) \<and>
     wfVal (snd (sanitizeRecursive h obj d)) (fst (sanitizeRecursive h obj d)) \<and>
     cleanVal (length h) (fst (sanitizeRecursive h obj d))"
  "wfHeap h \<Longrightarrow> list_all (wfVal h) items \<Longrightarrow>
     sanitized h (snd (sanitizeItems h items d)) \<and>
     list_all (wfVal (snd (sanitizeItems h items d))) (fst (sanitizeItems h items d)) \<and>
     list_all (cleanVal (length h)) (fst (sanitizeItems h items d))"
  "wfHeap h \<Longrightarrow> list_all (wfVal h) (map snd es) \<Longrightarrow>
     sanitized h (snd (sanitizeEntries h es d)) \<and>
     list_all (wfVal (snd (sanitizeEntries h es d))) (map snd (fst (sanitizeEntries h es d))) \<and>
     list_all (\<lambda>e. cleanVal (length h) (snd e) \<and>
                   (isSensitive (fst e) \<longrightarrow> snd e = VStr ''[REDACTED]''))
       (fst (sanitizeEntries h es d))"
proof (induction h obj d and h items d and h es d
    rule: sanitizeRecursive_sanitizeItems_sanitizeEntries.induct)
  case (1 h obj depth)
  note wf = \<open>wfHeap h\<close> and wv = \<open>wfVal h obj\<close>
  show ?case
  proof (cases "5 < depth")
    case True
    with wf show ?thesis by (simp add: sanitizeRecursive_deep sanitized_refl)
  next
    case False
    show ?thesis
    proof (cases obj)
      case (VRef a)
      with wv obtain ob where lk: "lookup h a = Some ob"
        by (auto simp: lookup_def)
      show ?thesis
      proof (cases ob)
        case (Arr items)
        let ?r = "sanitizeItems h items depth"
        from wf lk Arr have "list_all (wfVal h) items"
          by (auto dest: wfHeap_lookup)
        with "1.IH"(1) False VRef lk Arr wf
        have ih: "sanitized h (snd ?r)" "list_all (wfVal (snd ?r)) (fst ?r)"
          "list_all (cleanVal (length h)) (fst ?r)"
          by simp_all
        have "sanitized h (snd ?r @ [Arr (fst ?r)])"
          using ih by (intro sanitized_snoc) simp_all
        moreover have "length h \<le> length (snd ?r)"
          using ih(1) by (rule sanitized_length)
        ultimately show ?thesis
          using False VRef lk Arr by (simp add: sanitizeRecursive_arr)
      next
        case (Obj es)
        let ?r = "sanitizeEntries h es depth"
        from wf lk Obj have "list_all (wfVal h) (map snd es)"
          by (auto dest: wfHeap_lookup)
        with "1.IH"(2) False VRef lk Obj wf
        have ih: "sanitized h (snd ?r)" "list_all (wfVal (snd ?r)) (map snd (fst ?r))"
          "list_all (\<lambda>e. cleanVal (length h) (snd e) \<and>
                   (isSensitive (fst e) \<longrightarrow> snd e = VStr ''[REDACTED]'')) (fst ?r)"
          by simp_all
        have "sanitized h (snd ?r @ [Obj (fst ?r)])"
          using ih by (intro sanitized_snoc) simp_all
        moreover have "length h \<le> length (snd ?r)"
          using ih(1) by (rule sanitized_length)
        ultimately show ?thesis
          using False VRef lk Obj by (simp add: sanitizeRecursive_obj)
      qed
    qed (use False wf in \<open>simp_all add: sanitizeRecursive_prim sanitized_refl\<close>)
  qed
next
  case (2 h depth)
  then show ?case by (simp add: sanitized_refl)
next
  case (3 h item items depth)
  let ?a = "sanitizeRecursive h item (depth + 1)"
  let ?b = "sanitizeItems (snd ?a) items depth"
  from "3.prems" have wf: "wfHeap h" and wi: "wfVal h item" and wis: "list_all (wfVal h) items"
    by simp_all
  from "3.IH"(1)[OF wf wi]
  have a: "sanitized h (snd ?a)" "wfVal (snd ?a) (fst ?a)" "cleanVal (length h) (fst ?a)"
    by simp_all
  from a(1) have pa: "prefix h (snd ?a)" and wfa: "wfHeap (snd ?a)"
    by (simp_all add: sanitized_def)
  from wis pa have "list_all (wfVal (snd ?a)) items" by (rule wfVals_mono)
  with "3.IH"(2)[OF _ wfa, of "fst ?a"]
  have b: "sanitized (snd ?a) (snd ?b)" "list_all (wfVal (snd ?b)) (fst ?b)"
    "list_all (cleanVal (length (snd ?a))) (fst ?b)"
    by (simp_all add: prod_eq_iff)
  from b(1) have pb: "prefix (snd ?a) (snd ?b)" by (simp add: sanitized_def)
  from a(1) have le: "length h \<le> length (snd ?a)" by (rule sanitized_length)
  have "sanitized h (snd ?b)" using a(1) b(1) by (rule sanitized_trans)
  moreover have "wfVal (snd ?b) (fst ?a)" using a(2) pb by (rule wfVal_mono)
  moreover have "list_all (cleanVal (length h)) (fst ?b)"
    using b(3) le by (auto simp: list_all_iff intro: cleanVal_mono)
  ultimately show ?case
    using a(3) b(2) by (simp add: sanitizeItems_Cons)
next
  case (4 h depth)
  then show ?case by (simp add: sanitized_refl)
next
  case (5 h key v rest depth)
  from "5.prems" have wf: "wfHeap h" and wv: "wfVal h v"
    and wr: "list_all (wfVal h) (map snd rest)"
    by simp_all
  show ?case
  proof (cases "isSensitive key")
    case True
    with "5.IH"(1)[OF True wf wr] show ?thesis
      by (simp add: sanitizeEntries_Cons setProperty_all setProperty_all_snd)
  next
    case ns: False
    show ?thesis
    proof (cases "isObject v")
      case False
      then have "cleanVal (length h) v" by (cases v) simp_all
      moreover have "wfVal (snd (sanitizeEntries h rest depth)) v"
        using False by (cases v) simp_all
      ultimately show ?thesis
        using "5.IH"(4)[OF ns False wf wr] ns False
        by (simp add: sanitizeEntries_Cons setProperty_all setProperty_all_snd)
    next
      case ob: True
      let ?a = "sanitizeRecursive h v (depth + 1)"
      let ?b = "sanitizeEntries (snd ?a) rest depth"
      from "5.IH"(2)[OF ns ob wf wv]
      have a: "sanitized h (snd ?a)" "wfVal (snd ?a) (fst ?a)" "cleanVal (length h) (fst ?a)"
        by simp_all
      from a(1) have pa: "prefix h (snd ?a)" and wfa: "wfHeap (snd ?a)"
        by (simp_all add: sanitized_def)
      from wr pa have "list_all (wfVal (snd ?a)) (map snd rest)" by (rule wfVals_mono)
      with "5.IH"(3)[OF ns ob _ wfa, of "fst ?a"]
      have b: "sanitized (snd ?a) (snd ?b)" "list_all (wfVal (snd ?b)) (map snd (fst ?b))"
        "list_all (\<lambda>e. cleanVal (length (snd ?a)) (snd e) \<and>
                   (isSensitive (fst e) \<longrightarrow> snd e = VStr ''[REDACTED]'')) (fst ?b)"
        by (simp_all add: prod_eq_iff)
      from b(1) have pb: "prefix (snd ?a) (snd ?b)" by (simp add: sanitized_def)
      from a(1) have le: "length h \<le> length (snd ?a)" by (rule sanitized_length)
      have "sanitized h (snd ?b)" using a(1) b(1) by (rule sanitized_trans)
      moreover have "wfVal (snd ?b) (fst ?a)" using a(2) pb by (rule wfVal_mono)
      moreover have "list_all (\<lambda>e. cleanVal (length h) (snd e) \<and>
                   (isSensitive (fst e) \<longrightarrow> snd e = VStr ''[REDACTED]'')) (fst ?b)"
        using b(3) le by (auto simp: list_all_iff intro: cleanVal_mono)
      ultimately show ?thesis
        using a(3) b(2) ns ob
        by (simp add: sanitizeEntries_Cons setProperty_all setProperty_all_snd)
    qed
  qed
qed

lemma sanitizeData_prim: "\<not> isObject data \<Longrightarrow> sanitizeData h data = (data, h)"
  by (simp add: sanitizeData_def)

lemma sanitizeData_obj:
  "lookup h a = Some ob \<Longrightarrow>
   sanitizeData h (VRef a) = sanitizeRecursive (h @ [ob]) (VRef (length h)) 0"
  by (simp add: sanitizeData_def)

lemma sanitizeData_prefix: "prefix h (snd (sanitizeData h data))"
proof (cases data)
  case (VRef a)
  show ?thesis
  proof (cases "lookup h a")
    case None
    with VRef show ?thesis by (simp add: sanitizeData_def)
  next
    case (Some ob)
    have "prefix (h @ [ob]) (snd (sanitizeRecursive (h @ [ob]) (VRef (length h)) 0))"
      by (rule sanitize_prefix)
    then have "prefix h (snd (sanitizeRecursive (h @ [ob]) (VRef (length h)) 0))"
      by (rule append_prefixD)
    with VRef Some show ?thesis by (simp add: sanitizeData_obj)
  qed
qed (simp_all add: sanitizeData_def)

lemma sanitizeData_clean:
  assumes "wfHeap h" and "wfVal h data" and "isObject data"
  shows "sanitized (h @ [h ! (case data of VRef a \<Rightarrow> a | _ \<Rightarrow> 0)]) (snd (sanitizeData h data)) \<and>
     wfVal (snd (sanitizeData h data)) (fst (sanitizeData h data)) \<and>
     cleanVal (Suc (length h)) (fst (sanitizeData h data)) \<and>
     isObject (fst (sanitizeData h data))"
proof -
  from assms(3) obtain a where d: "data = VRef a" by (cases data) simp_all
  with assms(2) have a: "a < length h" by simp
  then have lk: "lookup h a = Some (h ! a)" by (simp add: lookup_def)
  let ?h1 = "h @ [h ! a]"
  from assms(1) lk have "list_all (wfVal h) (valuesOf (h ! a))" by (rule wfHeap_lookup)
  then have "list_all (wfVal ?h1) (valuesOf (h ! a))" by (rule wfVals_mono) simp
  with assms(1) have wf1: "wfHeap ?h1" by (rule wfHeap_snoc)
  have wv1: "wfVal ?h1 (VRef (length h))" by simp
  note c = sanitize_clean(1)[OF wf1 wv1, of 0]
  have lk1: "lookup ?h1 (length h) = Some (h ! a)" by (simp add: lookup_def)
  have "isObject (fst (sanitizeRecursive ?h1 (VRef (length h)) 0))"
    using lk1 by (cases "h ! a") (simp_all add: sanitizeRecursive_arr sanitizeRecursive_obj)
  with c show ?thesis by (simp add: d sanitizeData_obj [OF lk])
qed

lemma cleanObj_values: "cleanObj n ob \<Longrightarrow> list_all (cleanVal n) (valuesOf ob)"
  by (cases ob) (auto simp: list_all_iff)

lemma sanitizeData_fresh:
  assumes "wfHeap h" and "wfVal h data" and "isObject data"
  shows "(\<exists>b. fst (sanitizeData h data) = VRef b \<and> length h < b \<and>
            b < length (snd (sanitizeData h data))) \<and>
     (\<forall>a. length h < a \<and> a < length (snd (sanitizeData h data)) \<longrightarrow>
          cleanObj (Suc (length h)) (snd (sanitizeData h data) ! a))"
proof -
  note c = sanitizeData_clean [OF assms]
  from c obtain b where b: "fst (sanitizeData h data) = VRef b"
    by (cases "fst (sanitizeData h data)") simp_all
  with c have "length h < b" "b < length (snd (sanitizeData h data))" by simp_all
  moreover from c have "\<forall>a. length h < a \<and> a < length (snd (sanitizeData h data)) \<longrightarrow>
          cleanObj (Suc (length h)) (snd (sanitizeData h data) ! a)"
    by (simp add: sanitized_def Suc_le_eq)
  ultimately show ?thesis using b by blast
qed

lemma reify_prim: "\<not> isObject v \<Longrightarrow> reify k h v = Leaf v"
  by (cases k; cases v) simp_all

lemma reify_extend:
  "wfHeap h \<Longrightarrow> wfVal h v \<Longrightarrow> prefix h h' \<Longrightarrow> reify k h' v = reify k h v"
proof (induction k arbitrary: v)
  case 0
  then show ?case by simp
next
  case (Suc k)
  show ?case
  proof (cases v)
    case (VRef a)
    with Suc.prems have a: "a < length h" by simp
    with Suc.prems have "a < length h'" by (auto dest: prefix_length_le)
    with a Suc.prems have lk: "lookup h a = Some (h ! a)" "lookup h' a = Some (h ! a)"
      by (simp_all add: lookup_def prefix_nth)
    from Suc.prems(1) lk(1) have ch: "list_all (wfVal h) (valuesOf (h ! a))"
      by (rule wfHeap_lookup)
    show ?thesis
    proof (cases "h ! a")
      case (Arr items)
      with ch have "map (reify k h') items = map (reify k h) items"
        using Suc.IH Suc.prems(1,3) by (auto simp: list_all_iff)
      with VRef lk Arr show ?thesis by simp
    next
      case (Obj es)
      with ch have "map (\<lambda>e. (fst e, reify k h' (snd e))) es =
          map (\<lambda>e. (fst e, reify k h (snd e))) es"
        using Suc.IH Suc.prems(1,3) by (auto simp: list_all_iff)
      with VRef lk Obj show ?thesis by simp
    qed
  qed simp_all
qed

lemma redactedCopy_deep: "5 < d \<Longrightarrow> redactedCopy d t = Leaf (VStr ''[Object too deep]'')"
  by (cases t) simp_all

lemma map_setProperty:
  "map (\<lambda>e. (fst e, f (snd e))) (setProperty key v r) =
     (if key = ''__proto__'' then map (\<lambda>e. (fst e, f (snd e))) r
      else (key, f v) # map (\<lambda>e. (fst e, f (snd e))) r)"
  by (simp add: setProperty_def)

text \<open>
  The walk on the heap computes the copy said on trees: read back to a depth that
  reaches past the last level copied, the result of \<open>sanitizeRecursive\<close> at depth \<open>d\<close>
  is \<open>redactedCopy d\<close> of the argument read back as far.
\<close>

lemma sanitize_refines:
  "wfHeap h \<Longrightarrow> wfVal h obj \<Longrightarrow> 6 \<le> k + d \<Longrightarrow>
     reify k (snd (sanitizeRecursive h obj d)) (fst (sanitizeRecursive h obj d)) =
       redactedCopy d (reify k h obj)"
  "wfHeap h \<Longrightarrow> list_all (wfVal h) items \<Longrightarrow> 5 \<le> k + d \<Longrightarrow>
     map (reify k (snd (sanitizeItems h items d))) (fst (sanitizeItems h items d)) =
       redactedItems d (map (reify k h) items)"
  "wfHeap h \<Longrightarrow> list_all (wfVal h) (map snd es) \<Longrightarrow> 5 \<le> k + d \<Longrightarrow>
     map (\<lambda>e. (fst e, reify k (snd (sanitizeEntries h es d)) (snd e)))
         (fst (sanitizeEntries h es d)) =
       redactedEntries d (map (\<lambda>e. (fst e, reify k h (snd e))) es)"
proof (induction h obj d and h items d and h es d arbitrary: k and k and k
    rule: sanitizeRecursive_sanitizeItems_sanitizeEntries.induct)
  case (1 h obj depth)
  note wf = \<open>wfHeap h\<close> and wv = \<open>wfVal h obj\<close> and kd = \<open>6 \<le> k + depth\<close>
  show ?case
  proof (cases "5 < depth")
    case True
    then show ?thesis
      by (simp add: sanitizeRecursive_deep redactedCopy_deep reify_prim)
  next
    case False
    with kd obtain k' where k: "k = Suc k'" and kd': "5 \<le> k' + depth"
      by (cases k) simp_all
    show ?thesis
    proof (cases obj)
      case (VRef a)
      with wv obtain ob where lk: "lookup h a = Some ob"
        by (auto simp: lookup_def)
      show ?thesis
      proof (cases ob)
        case (Arr items)
        let ?r = "sanitizeItems h items depth"
        from wf lk Arr have wi: "list_all (wfVal h) items"
          by (auto dest: wfHeap_lookup)
        from sanitize_clean(2)[OF wf wi, of depth]
        have c: "wfHeap (snd ?r)" "list_all (wfVal (snd ?r)) (fst ?r)"
          by (simp_all add: sanitized_def)
        have ih: "map (reify k' (snd ?r)) (fst ?r) = redactedItems depth (map (reify k' h) items)"
          using "1.IH"(1)[OF False VRef lk Arr wf wi kd'] .
        have "map (reify k' (snd ?r @ [Arr (fst ?r)])) (fst ?r) = map (reify k' (snd ?r)) (fst ?r)"
          using c by (auto simp: list_all_iff intro!: reify_extend)
        with ih have "reify k (snd ?r @ [Arr (fst ?r)]) (VRef (length (snd ?r))) =
            ArrT (redactedItems depth (map (reify k' h) items))"
          by (simp add: k lookup_def)
        then show ?thesis
          using False VRef lk Arr by (simp add: sanitizeRecursive_arr k)
      next
        case (Obj es)
        let ?r = "sanitizeEntries h es depth"
        from wf lk Obj have wi: "list_all (wfVal h) (map snd es)"
          by (auto dest: wfHeap_lookup)
        from sanitize_clean(3)[OF wf wi, of depth]
        have c: "wfHeap (snd ?r)" "list_all (wfVal (snd ?r)) (map snd (fst ?r))"
          by (simp_all add: sanitized_def)
        have ih: "map (\<lambda>e. (fst e, reify k' (snd ?r) (snd e))) (fst ?r) =
            redactedEntries depth (map (\<lambda>e. (fst e, reify k' h (snd e))) es)"
          using "1.IH"(2)[OF False VRef lk Obj wf wi kd'] .
        have "map (\<lambda>e. (fst e, reify k' (snd ?r @ [Obj (fst ?r)]) (snd e))) (fst ?r) =
            map (\<lambda>e. (fst e, reify k' (snd ?r) (snd e))) (fst ?r)"
          using c by (auto simp: list_all_iff intro!: reify_extend)
        with ih have "reify k (snd ?r @ [Obj (fst ?r)]) (VRef (length (snd ?r))) =
            ObjT (redactedEntries depth (map (\<lambda>e. (fst e, reify k' h (snd e))) es))"
          by (simp add: k lookup_def)
        then show ?thesis
          using False VRef lk Obj by (simp add: sanitizeRecursive_obj k)
      qed
    qed (use False in \<open>simp_all add: sanitizeRecursive_prim k\<close>)
  qed
next
  case (2 h depth)
  then show ?case by simp
next
  case (3 h item items depth)
  let ?a = "sanitizeRecursive h item (depth + 1)"
  let ?b = "sanitizeItems (snd ?a) items depth"
  from "3.prems" have wf: "wfHeap h" and wi: "wfVal h item" and wis: "list_all (wfVal h) items"
    and kd: "5 \<le> k + depth"
    by simp_all
  from sanitize_clean(1)[OF wf wi, of "depth + 1"]
  have a: "prefix h (snd ?a)" "wfHeap (snd ?a)" "wfVal (snd ?a) (fst ?a)"
    by (simp_all add: sanitized_def)
  from wis a(1) have wis': "list_all (wfVal (snd ?a)) items" by (rule wfVals_mono)
  have pb: "prefix (snd ?a) (snd ?b)" by (rule sanitize_prefix)
  have 1: "reify k (snd ?a) (fst ?a) = redactedCopy (depth + 1) (reify k h item)"
    using kd by (intro "3.IH"(1)[OF wf wi]) simp
  have 2: "map (reify k (snd ?b)) (fst ?b) = redactedItems depth (map (reify k (snd ?a)) items)"
    using "3.IH"(2)[OF _ a(2) wis' kd, of "fst ?a"] by (simp add: prod_eq_iff)
  have 3: "map (reify k (snd ?a)) items = map (reify k h) items"
    using wis wf a(1) by (auto simp: list_all_iff intro!: reify_extend)
  have 4: "reify k (snd ?b) (fst ?a) = reify k (snd ?a) (fst ?a)"
    using a(2,3) pb by (rule reify_extend)
  have 5: "map (reify k (snd ?b)) (fst ?b) = redactedItems depth (map (reify k h) items)"
    by (simp only: 2 3)
  from 1 4 5 show ?case
    by (simp add: sanitizeItems_Cons)
next
  case (4 h depth)
  then show ?case by simp
next
  case (5 h key v rest depth)
  from "5.prems" have wf: "wfHeap h" and wv: "wfVal h v"
    and wr: "list_all (wfVal h) (map snd rest)" and kd: "5 \<le> k + depth"
    by simp_all
  show ?case
  proof (cases "isSensitive key")
    case True
    with "5.IH"(1)[OF True wf wr kd] show ?thesis
      by (simp add: sanitizeEntries_Cons map_setProperty reify_prim)
  next
    case ns: False
    show ?thesis
    proof (cases "isObject v")
      case False
      with "5.IH"(4)[OF ns False wf wr kd] ns show ?thesis
        by (simp add: sanitizeEntries_Cons map_setProperty reify_prim)
    next
      case ob: True
      let ?a = "sanitizeRecursive h v (depth + 1)"
      let ?b = "sanitizeEntries (snd ?a) rest depth"
      from sanitize_clean(1)[OF wf wv, of "depth + 1"]
      have a: "prefix h (snd ?a)" "wfHeap (snd ?a)" "wfVal (snd ?a) (fst ?a)"
        by (simp_all add: sanitized_def)
      from wr a(1) have wr': "list_all (wfVal (snd ?a)) (map snd rest)" by (rule wfVals_mono)
      have pb: "prefix (snd ?a) (snd ?b)" by (rule sanitize_prefix)
      have 1: "reify k (snd ?a) (fst ?a) = redactedCopy (depth + 1) (reify k h v)"
        using kd by (intro "5.IH"(2)[OF ns ob wf wv]) simp
      have 2: "map (\<lambda>e. (fst e, reify k (snd ?b) (snd e))) (fst ?b) =
          redactedEntries depth (map (\<lambda>e. (fst e, reify k (snd ?a) (snd e))) rest)"
        using "5.IH"(3)[OF ns ob _ a(2) wr' kd, of "fst ?a"] by (simp add: prod_eq_iff)
      have 3: "map (\<lambda>e. (fst e, reify k (snd ?a) (snd e))) rest =
          map (\<lambda>e. (fst e, reify k h (snd e))) rest"
        using wr wf a(1) by (auto simp: list_all_iff intro!: reify_extend)
      have 4: "reify k (snd ?b) (fst ?a) = reify k (snd ?a) (fst ?a)"
        using a(2,3) pb by (rule reify_extend)
      have 5: "\<not> primitiveT (reify k h v)"
      proof (cases k)
        case 0
        with ob show ?thesis by simp
      next
        case (Suc k')
        from ob obtain b where v: "v = VRef b" by (cases v) simp_all
        with wv have "lookup h b = Some (h ! b)" by (simp add: lookup_def)
        then show ?thesis by (cases "h ! b") (simp_all add: Suc v)
      qed
      have 6: "map (\<lambda>e. (fst e, reify k (snd ?b) (snd e))) (fst ?b) =
          redactedEntries depth (map (\<lambda>e. (fst e, reify k h (snd e))) rest)"
        by (simp only: 2 3)
      from 1 4 5 6 ns ob show ?thesis
        by (simp add: sanitizeEntries_Cons map_setProperty)
    qed
  qed
qed

lemma sanitizeData_refines:
  assumes "wfHeap h" and "wfVal h data" and "6 \<le> k"
  shows "reify k (snd (sanitizeData h data)) (fst (sanitizeData h data)) =
           redactedCopy 0 (reify k h data)"
proof (cases "isObject data")
  case False
  then show ?thesis by (simp add: sanitizeData_prim reify_prim)
next
  case True
  then obtain a where d: "data = VRef a" by (cases data) simp_all
  with assms(2) have a: "a < length h" by simp
  then have lk: "lookup h a = Some (h ! a)" by (simp add: lookup_def)
  let ?h1 = "h @ [h ! a]"
  from assms(1) lk have ch: "list_all (wfVal h) (valuesOf (h ! a))" by (rule wfHeap_lookup)
  then have "list_all (wfVal ?h1) (valuesOf (h ! a))" by (rule wfVals_mono) simp
  with assms(1) have wf1: "wfHeap ?h1" by (rule wfHeap_snoc)
  have wv1: "wfVal ?h1 (VRef (length h))" by simp
  from assms(3) obtain k' where k: "k = Suc k'" by (cases k) simp_all
  have "reify k ?h1 (VRef (length h)) = reify k h (VRef a)"
  proof (cases "h ! a")
    case (Arr items)
    with ch have "map (reify k' ?h1) items = map (reify k' h) items"
      using assms(1) by (auto simp: list_all_iff intro!: reify_extend)
    with Arr lk show ?thesis by (simp add: k lookup_def)
  next
    case (Obj es)
    with ch have "map (\<lambda>e. (fst e, reify k' ?h1 (snd e))) es =
        map (\<lambda>e. (fst e, reify k' h (snd e))) es"
      using assms(1) by (auto simp: list_all_iff intro!: reify_extend)
    with Obj lk show ?thesis by (simp add: k lookup_def)
  qed
  with sanitize_refines(1)[OF wf1 wv1, of k 0] assms(3) show ?thesis
    by (simp add: d sanitizeData_obj [OF lk])
qed

lemma redactedItems_map: "redactedItems d ts = map (redactedCopy (d + 1)) ts"
  by (induction ts) simp_all

lemma redactedEntries_keys:
  "map fst (redactedEntries d es) = filter (\<lambda>key. key \<noteq> ''__proto__'') (map fst es)"
  by (induction es) auto

lemma redactedEntries_key:
  assumes "distinct (map fst es)" and "(key, t) \<in> set es" and "key \<noteq> ''__proto__''"
  shows "map_of (redactedEntries d es) key =
           Some (if isSensitive key then Leaf (VStr ''[REDACTED]'')
                 else if primitiveT t then t
                 else redactedCopy (d + 1) t)"
  using assms
proof (induction es)
  case Nil
  then show ?case by simp
next
  case (Cons e es)
  obtain key' t' where e: "e = (key', t')" by (cases e)
  show ?case
  proof (cases "key' = key")
    case True
    with Cons.prems e have "t' = t" by (auto simp: image_iff)
    with True e Cons.prems(3) show ?thesis by simp
  next
    case False
    with Cons.prems e have "(key, t) \<in> set es" "distinct (map fst es)" by auto
    with Cons.IH Cons.prems(3) False e show ?thesis by simp
  qed
qed

text \<open>
  C5, as the code has it. (1) For a payload that is an object or array of a well-formed
  heap, \<open>sanitizeData\<close> returns a reference to a new object, and every object that the
  walk has made refers to new objects only and holds the redaction marker under each
  of its keys that matches a sensitive pattern: the result shares no object with the
  payload and holds no original value under a sensitive key. (2) Read back as a tree,
  to any depth of at least 6, the result is \<open>redactedCopy 0\<close> of the payload read back
  as far: the walk starts at depth 0 and goes one level deeper at each array element
  and at each object or array under a non-sensitive key. (3) At each depth up to 5 an
  array is copied element by element, each element taken one level deeper, and an
  object is copied key by key, in order, without the key \<open>__proto__\<close>: a sensitive key
  gets the redaction marker whatever its value; another key keeps a primitive value as
  it is, at depth 5 too, where that value lies at depth 6; another key with an object or
  array gets the copy of it taken one level deeper. (4) Beyond depth 5 the copy of every
  value is the depth marker, so at depth 5 every element of an array, primitive or not,
  and every object or array under a non-sensitive key becomes the depth marker.
\<close>

theorem sanitizeData_redaction:
  "(wfHeap h \<and> wfVal h data \<and> isObject data \<longrightarrow>
      (\<exists>b. fst (sanitizeData h data) = VRef b \<and> length h < b \<and>
            b < length (snd (sanitizeData h data))) \<and>
      (\<forall>a. length h < a \<and> a < length (snd (sanitizeData h data)) \<longrightarrow>
           cleanObj (Suc (length h)) (snd (sanitizeData h data) ! a))) \<and>
   (wfHeap h \<and> wfVal h data \<and> 6 \<le> k \<longrightarrow>
      reify k (snd (sanitizeData h data)) (fst (sanitizeData h data)) =
        redactedCopy 0 (reify k h data)) \<and>
   (wfHeap h \<and> wfVal h v \<and> 6 \<le> k + d \<longrightarrow>
      reify k (snd (sanitizeRecursive h v d)) (fst (sanitizeRecursive h v d)) =
        redactedCopy d (reify k h v)) \<and>
   (\<not> 5 < d \<longrightarrow>
      redactedCopy d (Leaf v) = Leaf v \<and>
      redactedCopy d (ArrT ts) = ArrT (map (redactedCopy (d + 1)) ts) \<and>
      redactedCopy d (ObjT es) = ObjT (redactedEntries d es)) \<and>
   map fst (redactedEntries d es) = filter (\<lambda>key. key \<noteq> ''__proto__'') (map fst es) \<and>
   (distinct (map fst es) \<and> (key, t) \<in> set es \<and> key \<noteq> ''__proto__'' \<longrightarrow>
      map_of (redactedEntries d es) key =
        Some (if isSensitive key then Leaf (VStr ''[REDACTED]'')
              else if primitiveT t then t
              else redactedCopy (d + 1) t)) \<and>
   (5 < d \<longrightarrow>
      redactedCopy d t = Leaf (VStr ''[Object too deep]'') \<and>
      sanitizeRecursive h v d = (VStr ''[Object too deep]'', h))"
  using sanitizeData_fresh [of h data] sanitizeData_refines [of h data k]
    sanitize_refines(1) [of h v k d] redactedItems_map [of d ts]
    redactedEntries_keys [of d es] redactedEntries_key [of es key t d]
    redactedCopy_deep [of d t] sanitizeRecursive_deep [of d h v]
  by simp

text \<open>
  C10. The heap after \<open>sanitizeData\<close> is the heap before it followed by new objects: every
  object of the payload, nested or not, with the values under its sensitive keys, is
  where it was and as it was. A payload that is not an object is returned as it is, on
  the same heap. For an object or array of a well-formed heap, the result is a
  reference to a new object, and the new objects refer to new objects only: the copy
  handed to the log shares nothing with the payload.
\<close>

theorem sanitizeData_payload_untouched:
  "prefix h (snd (sanitizeData h data)) \<and>
   (\<forall>a. a < length h \<longrightarrow> lookup (snd (sanitizeData h data)) a = lookup h a) \<and>
   (\<not> isObject data \<longrightarrow> sanitizeData h data = (data, h)) \<and>
   (wfHeap h \<and> wfVal h data \<and> isObject data \<longrightarrow>
      (\<exists>b. fst (sanitizeData h data) = VRef b \<and> length h < b \<and>
            b < length (snd (sanitizeData h data))) \<and>
      (\<forall>a. length h < a \<and> a < length (snd (sanitizeData h data)) \<longrightarrow>
           list_all (cleanVal (Suc (length h))) (valuesOf (snd (sanitizeData h data) ! a))))"
proof -
  have p: "prefix h (snd (sanitizeData h data))" by (rule sanitizeData_prefix)
  then have le: "length h \<le> length (snd (sanitizeData h data))" by (rule prefix_length_le)
  have same: "lookup (snd (sanitizeData h data)) a = lookup h a" if "a < length h" for a
    using that le prefix_nth [OF p that] by (simp add: lookup_def)
  have prim: "\<not> isObject data \<longrightarrow> sanitizeData h data = (data, h)"
    by (simp add: sanitizeData_prim)
  have fresh: "(\<exists>b. fst (sanitizeData h data) = VRef b \<and> length h < b \<and>
            b < length (snd (sanitizeData h data))) \<and>
      (\<forall>a. length h < a \<and> a < length (snd (sanitizeData h data)) \<longrightarrow>
           list_all (cleanVal (Suc (length h))) (valuesOf (snd (sanitizeData h data) ! a)))"
    if "wfHeap h \<and> wfVal h data \<and> isObject data"
    using sanitizeData_fresh [of h data] that by (blast intro: cleanObj_values)
  from p same prim fresh show ?thesis by blast
qed

lemma isSensitive_examples:
  "isSensitive ''Password''" "isSensitive ''apiKey''" "isSensitive ''token''"
  "\<not> isSensitive ''user''" "\<not> isSensitive ''meta''" "\<not> isSensitive ''tags''"
  "\<not> isSensitive ''a''" "\<not> isSensitive ''n''" "\<not> isSensitive ''deep''" "\<not> isSensitive ''x''"
  "\<not> isSensitive ''__proto__''" "\<not> isSensitive ''name''" "\<not> isSensitive ''__proto__x''"
  "\<not> isSensitive ''admin''"
  by (simp_all add: isSensitive_def sensitiveDataPatterns_def regexTest_def lowerChar_def)

lemma loginHeap_run:
  "sanitizeData loginHeap (VRef 0) =
     (VRef 6,
      loginHeap @
      [Obj [(''user'', VStr ''ann''), (''Password'', VStr ''hunter2''), (''meta'', VRef 1)],
       Arr [VStr ''x'', VNum 7],
       Obj [(''apiKey'', VStr ''[REDACTED]''), (''tags'', VRef 4)],
       Obj [(''user'', VStr ''ann''), (''Password'', VStr ''[REDACTED]''), (''meta'', VRef 5)]])"
  by (simp add: sanitizeData_def loginHeap_def lookup_def sanitizeRecursive.simps
      sanitizeItems.simps sanitizeEntries.simps setProperty_def isSensitive_examples)

lemma deepHeap_run:
  "sanitizeData deepHeap (VRef 0) =
     (VRef 13,
      deepHeap @
      [Obj [(''a'', VRef 1)],
       Obj [(''n'', VNum 1), (''deep'', VStr ''[Object too deep]''),
            (''token'', VStr ''[REDACTED]'')],
       Obj [(''a'', VRef 8)], Obj [(''a'', VRef 9)], Obj [(''a'', VRef 10)],
       Obj [(''a'', VRef 11)], Obj [(''a'', VRef 12)]])"
  by (simp add: sanitizeData_def deepHeap_def lookup_def sanitizeRecursive.simps
      sanitizeItems.simps sanitizeEntries.simps setProperty_def isSensitive_examples)

lemma loginHeap_wf: "wfHeap loginHeap"
  by (simp add: wfHeap_def loginHeap_def)

lemma protoHeap_run:
  "sanitizeData protoHeap (VRef 0) =
     (VRef 4,
      protoHeap @
      [Obj [(''__proto__'', VRef 1), (''name'', VStr ''x''), (''__proto__x'', VNum 1)],
       Obj [(''admin'', VBool True)],
       Obj [(''name'', VStr ''x''), (''__proto__x'', VNum 1)]])"
  by (simp add: sanitizeData_def protoHeap_def lookup_def sanitizeRecursive.simps
      sanitizeItems.simps sanitizeEntries.simps setProperty_def isSensitive_examples)

lemma protoHeap_wf: "wfHeap protoHeap"
  by (simp add: wfHeap_def protoHeap_def)

theorem sanitizeData_redaction_witness:
  "wfHeap loginHeap \<and> wfVal loginHeap (VRef 0) \<and> isObject (VRef 0) \<and> (6::nat) \<le> 6 \<and>
   fst (sanitizeData loginHeap (VRef 0)) = VRef 6 \<and>
   reify 6 loginHeap (VRef 0) =
     ObjT [(''user'', Leaf (VStr ''ann'')),
           (''Password'', Leaf (VStr ''hunter2'')),
           (''meta'', ObjT [(''apiKey'', Leaf (VStr ''k-123'')),
                            (''tags'', ArrT [Leaf (VStr ''x''), Leaf (VNum 7)])])] \<and>
   reify 6 (snd (sanitizeData loginHeap (VRef 0))) (fst (sanitizeData loginHeap (VRef 0))) =
     ObjT [(''user'', Leaf (VStr ''ann'')),
           (''Password'', Leaf (VStr ''[REDACTED]'')),
           (''meta'', ObjT [(''apiKey'', Leaf (VStr ''[REDACTED]'')),
                            (''tags'', ArrT [Leaf (VStr ''x''), Leaf (VNum 7)])])] \<and>
   redactedCopy 0 (reify 6 loginHeap (VRef 0)) =
     ObjT [(''user'', Leaf (VStr ''ann'')),
           (''Password'', Leaf (VStr ''[REDACTED]'')),
           (''meta'', ObjT [(''apiKey'', Leaf (VStr ''[REDACTED]'')),
                            (''tags'', ArrT [Leaf (VStr ''x''), Leaf (VNum 7)])])] \<and>
   distinct (map fst [(''user'', Leaf (VStr ''ann'')), (''Password'', Leaf (VStr ''hunter2''))]) \<and>
   map_of (redactedEntries 0
       [(''user'', Leaf (VStr ''ann'')), (''Password'', Leaf (VStr ''hunter2''))]) ''Password'' =
     Some (Leaf (VStr ''[REDACTED]'')) \<and>
   wfHeap protoHeap \<and> wfVal protoHeap (VRef 0) \<and>
   reify 6 (snd (sanitizeData protoHeap (VRef 0))) (fst (sanitizeData protoHeap (VRef 0))) =
     ObjT [(''name'', Leaf (VStr ''x'')), (''__proto__x'', Leaf (VNum 1))] \<and>
   (5::nat) < 6 \<and>
   sanitizeRecursive protoHeap (VRef 0) 6 = (VStr ''[Object too deep]'', protoHeap)"
  using sanitizeData_redaction
      [where h = loginHeap and data = "VRef 0" and k = 6 and v = "VRef 0" and d = 0
         and ts = "[]"
         and es = "[(''user'', Leaf (VStr ''ann'')), (''Password'', Leaf (VStr ''hunter2''))]"
         and key = "''Password''" and t = "Leaf (VStr ''hunter2'')"]
    sanitizeData_redaction
      [where h = protoHeap and data = "VRef 0" and k = 6 and v = "VRef 0" and d = 6
         and ts = "[]"
         and es = "[(''user'', Leaf (VStr ''ann'')), (''Password'', Leaf (VStr ''hunter2''))]"
         and key = "''Password''" and t = "Leaf (VStr ''hunter2'')"]
  by (simp add: loginHeap_wf loginHeap_run protoHeap_wf protoHeap_run sanitizeRecursive_deep
        isSensitive_examples)
     (simp add: loginHeap_def protoHeap_def lookup_def eval_nat_numeral isSensitive_examples)

text \<open>
  The payload of \<open>deepHeap\<close> and its sanitized copy, read back as trees. Of the three
  values at depth 6, the number under \<open>n\<close> is copied unchanged and the object under
  \<open>token\<close> becomes the redaction marker; only the object under \<open>deep\<close> becomes the
  depth marker.
\<close>

theorem sanitizeData_depth_six_values:
  "reify 8 deepHeap (VRef 0) =
     ObjT [(''a'', ObjT [(''a'', ObjT [(''a'', ObjT [(''a'', ObjT [(''a'',
       ObjT [(''n'', Leaf (VNum 1)),
             (''deep'', ObjT [(''x'', Leaf (VNum 2))]),
             (''token'', ObjT [(''x'', Leaf (VNum 2))])])])])])])] \<and>
   reify 8 (snd (sanitizeData deepHeap (VRef 0))) (fst (sanitizeData deepHeap (VRef 0))) =
     ObjT [(''a'', ObjT [(''a'', ObjT [(''a'', ObjT [(''a'', ObjT [(''a'',
       ObjT [(''n'', Leaf (VNum 1)),
             (''deep'', Leaf (VStr ''[Object too deep]'')),
             (''token'', Leaf (VStr ''[REDACTED]''))])])])])])]"
  by (simp add: deepHeap_run) (simp add: deepHeap_def lookup_def eval_nat_numeral)

theorem sanitizeData_payload_untouched_witness:
  "(1::nat) < length loginHeap \<and>
   lookup (snd (sanitizeData loginHeap (VRef 0))) 1 =
     Some (Obj [(''apiKey'', VStr ''k-123''), (''tags'', VRef 2)]) \<and>
   \<not> isObject (VStr ''plain'') \<and>
   sanitizeData loginHeap (VStr ''plain'') = (VStr ''plain'', loginHeap) \<and>
   wfHeap loginHeap \<and> wfVal loginHeap (VRef 0) \<and> isObject (VRef 0) \<and>
   fst (sanitizeData loginHeap (VRef 0)) = VRef 6 \<and>
   length loginHeap < 5 \<and> 5 < length (snd (sanitizeData loginHeap (VRef 0))) \<and>
   valuesOf (snd (sanitizeData loginHeap (VRef 0)) ! 5) = [VStr ''[REDACTED]'', VRef 4] \<and>
   take (length loginHeap) (snd (sanitizeData loginHeap (VRef 0))) = loginHeap"
  using sanitizeData_payload_untouched [of loginHeap "VRef 0"]
    sanitizeData_payload_untouched [of loginHeap "VStr ''plain''"]
  by (simp add: loginHeap_wf loginHeap_run sanitizeData_prim)
     (simp add: loginHeap_def lookup_def)

section \<open>Properties of the truncation\<close>

text \<open>
  C8. The configured maximum (1000, or 5000 in development) is at least 5. For a
  maximum of at least 5 and every payload with a serialized form \<open>s\<close>: when \<open>s\<close> is
  longer than the maximum, the result is a new object with \<open>_truncated = true\<close>,
  \<open>_originalLength\<close> the length of \<open>s\<close>, and \<open>_data\<close> the prefix of \<open>s\<close> of the
  maximum's length followed by an ellipsis; otherwise the payload is returned as it
  is, and the heap with it. (\<open>undefined\<close> has no serialized form and is returned as
  it is.)
\<close>

theorem truncateResponseBody_by_length:
  "5 \<le> maxResponseBodyLength env \<and>
   (5 \<le> maxLength \<and> bodyString ext h body = Some s \<longrightarrow>
      (maxLength < length s \<longrightarrow>
         truncateResponseBody ext h body maxLength =
           Inr (VRef (length h),
                h @ [Obj [(''_truncated'', VBool True),
                          (''_originalLength'', VNum (int (length s))),
                          (''_data'', VStr (take maxLength s @ ''...''))]]) \<and>
         prefix (take maxLength s) s \<and> length (take maxLength s) = maxLength) \<and>
      (length s \<le> maxLength \<longrightarrow> truncateResponseBody ext h body maxLength = Inr (body, h)))"
proof -
  have cfg: "5 \<le> maxResponseBodyLength env"
    by (simp add: maxResponseBodyLength_def)
  have falsy: "length s \<le> 5" if "\<not> truthy body" "bodyString ext h body = Some s"
    using that by (cases body) (auto simp: bodyString_def jsonStringify_def split: if_splits)
  have long: "truncateResponseBody ext h body maxLength =
           Inr (VRef (length h),
                h @ [Obj [(''_truncated'', VBool True),
                          (''_originalLength'', VNum (int (length s))),
                          (''_data'', VStr (take maxLength s @ ''...''))]])"
    if "5 \<le> maxLength" "bodyString ext h body = Some s" "maxLength < length s"
  proof -
    from that falsy have "truthy body" by fastforce
    with that show ?thesis by (simp add: truncateResponseBody_def)
  qed
  have short: "truncateResponseBody ext h body maxLength = Inr (body, h)"
    if "bodyString ext h body = Some s" "length s \<le> maxLength"
    using that by (simp add: truncateResponseBody_def)
  have pre: "prefix (take maxLength s) s" by (rule take_is_prefix)
  from cfg long short pre show ?thesis by auto
qed

theorem truncateResponseBody_by_length_witness:
  "(5::nat) \<le> 5 \<and> bodyString exampleStringify [] (VStr ''abcdefgh'') = Some ''abcdefgh'' \<and>
   5 < length ''abcdefgh'' \<and>
   truncateResponseBody exampleStringify [] (VStr ''abcdefgh'') 5 =
     Inr (VRef 0, [Obj [(''_truncated'', VBool True), (''_originalLength'', VNum 8),
                        (''_data'', VStr ''abcde...'')]]) \<and>
   bodyString exampleStringify [] (VBool False) = Some ''false'' \<and>
   length ''false'' \<le> 5 \<and>
   truncateResponseBody exampleStringify [] (VBool False) 5 = Inr (VBool False, [])"
  using truncateResponseBody_by_length [of "''production''" 5 exampleStringify "[]" "VStr ''abcdefgh''" "''abcdefgh''"]
    truncateResponseBody_by_length [of "''production''" 5 exampleStringify "[]" "VBool False" "''false''"]
  by (simp add: bodyString_def jsonStringify_def)

section \<open>Properties of the request tracker\<close>

lemma logResponse_unknown:
  "map_of (activeRequests lg) (requestId response) = None \<Longrightarrow>
   logResponse env ext h now response lg =
     (None,
      lg\<lparr>loggerCalls := loggerCalls lg @
        [LoggerWarn (''No request context found for response: '' @ requestId response) []]\<rparr>)"
  by (simp add: logResponse_def)

lemma logError_unknown:
  "map_of (activeRequests lg) rid = None \<Longrightarrow>
   logError now rid (ErrValue m) lg =
     (None,
      lg\<lparr>loggerCalls := loggerCalls lg @
        [LoggerError ''API Error without request context''
           [(''requestId'', S rid), (''error'', S m)]]\<rparr>)"
  by (simp add: logError_def)

lemma delete_absent: "map_of al k = None \<Longrightarrow> AList.delete k al = al"
  by (simp add: map_of_eq_None_iff AList.delete_id)

lemma logResponse_entries:
  "activeRequests (snd (logResponse env ext h now response lg)) =
     (if fst (logResponse env ext h now response lg) = None
      then AList.delete (requestId response) (activeRequests lg)
      else activeRequests lg)"
proof (cases "map_of (activeRequests lg) (requestId response)")
  case None
  then show ?thesis by (simp add: logResponse_def delete_absent)
next
  case (Some ctx)
  then show ?thesis
    by (simp add: logResponse_def Let_def split: sum.splits prod.splits)
qed

lemma logError_entries:
  "activeRequests (snd (logError now rid err lg)) =
     (case err of
        ErrNullish \<Rightarrow> activeRequests lg
      | ErrValue text \<Rightarrow> AList.delete rid (activeRequests lg))"
proof (cases "map_of (activeRequests lg) rid")
  case None
  then show ?thesis by (cases err) (simp_all add: logError_def delete_absent)
next
  case (Some ctx)
  then show ?thesis by (cases err) (simp_all add: logError_def)
qed

lemma logError_outcome:
  "fst (logError now rid err lg) =
     (case err of ErrNullish \<Rightarrow> Some TypeError | ErrValue text \<Rightarrow> None)"
  by (cases "map_of (activeRequests lg) rid"; cases err) (auto simp: logError_def)

lemma logResponse_returns_iff:
  "(fst (logResponse env ext h now response lg) = None) =
     (map_of (activeRequests lg) (requestId response) = None \<or>
      (\<exists>body h1 responseData.
         preparedBody env ext h (responseBody response) = Inr (body, h1) \<and>
         apiResponseData ext h1 body = Inr responseData))"
proof (cases "map_of (activeRequests lg) (requestId response)")
  case None
  then show ?thesis by (simp add: logResponse_def)
next
  case (Some ctx)
  then show ?thesis
    by (auto simp: logResponse_def Let_def split: sum.splits prod.splits)
qed

lemma logResponse_no_body:
  assumes "\<not> truthy (responseBody response)"
  shows "fst (logResponse env ext h now response lg) = None"
  using assms
  by (simp add: logResponse_returns_iff preparedBody_def apiResponseData_def)

lemma logResponse_distinct:
  "distinct (map fst (activeRequests lg)) \<Longrightarrow>
   distinct (map fst (activeRequests (snd (logResponse env ext h now response lg))))"
  by (simp add: logResponse_entries AList.distinct_delete)

lemma logError_distinct:
  "distinct (map fst (activeRequests lg)) \<Longrightarrow>
   distinct (map fst (activeRequests (snd (logError now rid err lg))))"
  by (cases err) (simp_all add: logError_entries AList.distinct_delete)

lemma logRequest_distinct:
  "distinct (map fst (activeRequests lg)) \<Longrightarrow>
   distinct (map fst (activeRequests (snd (logRequest env now g request lg))))"
  by (simp add: logRequest_def Let_def AList.distinct_update)

text \<open>
  The two ways in which the source leaves an entry in the tracker: \<open>logError\<close> given
  \<open>null\<close> or \<open>undefined\<close> throws on \<open>error.message\<close>, whether or not the tracker knows
  the id, before it logs or deletes; \<open>logResponse\<close> whose body \<open>JSON.stringify\<close> rejects
  throws before \<open>this.activeRequests.delete\<close>. In both the entries are as before.
\<close>

lemma logError_nullish_throws: "logError now rid ErrNullish lg = (Some TypeError, lg)"
  by (simp add: logError_def split: option.splits)

lemma logResponse_throws_keeps_entries:
  "fst (logResponse env ext h now response lg) \<noteq> None \<Longrightarrow>
   activeRequests (snd (logResponse env ext h now response lg)) = activeRequests lg"
  by (simp add: logResponse_entries del: not_None_eq)

lemma logResponse_unserializable_example:
  "logResponse ''production'' failingStringify loginHeap 5 (exampleBodyResponse ''r1'')
     exampleTracker = (Some TypeError, exampleTracker)"
  by (simp add: logResponse_def exampleTracker_def exampleBodyResponse_def exampleResponse_def
      exampleContext_def slowRequestThreshold_def preparedBody_def logResponseBodies_def
      apiResponseData_def jsonStringify_def failingStringify_def Let_def)

text \<open>
  C6, as the code has it. When the tracker has no entry for the id, \<open>logResponse\<close> makes
  one \<open>warn\<close> call and returns, and \<open>logError\<close>, given an error other than \<open>null\<close> or
  \<open>undefined\<close>, makes one \<open>error\<close> call (severity ERROR, not a warning) and returns;
  neither changes the tracker. A \<open>logResponse\<close> call for a known id returns exactly when
  \<open>JSON.stringify\<close> accepts the body as prepared for the log, both where
  \<open>truncateResponseBody\<close> measures it and where \<open>Logger.apiResponse\<close> serializes it, so
  always when the response has no body; a \<open>logError\<close> call returns whenever the error is
  not \<open>null\<close> or \<open>undefined\<close>. After a call that returns, the tracker has no
  entry for the id, so a second \<open>logResponse\<close> or \<open>logError\<close> for the same id takes the
  unknown-id path. Whatever the call does, every entry of another id is as before, and
  the ids of the tracker stay pairwise distinct under \<open>logRequest\<close>, \<open>logResponse\<close> and
  \<open>logError\<close>: at most one live entry per id.
\<close>

theorem logResponse_logError_lifecycle:
  "(map_of (activeRequests lg) (requestId response) = None \<longrightarrow>
      logResponse env ext h now response lg =
        (None,
         lg\<lparr>loggerCalls := loggerCalls lg @
           [LoggerWarn (''No request context found for response: '' @ requestId response) []]\<rparr>)) \<and>
   (map_of (activeRequests lg) rid = None \<longrightarrow>
      logError now rid (ErrValue m) lg =
        (None,
         lg\<lparr>loggerCalls := loggerCalls lg @
           [LoggerError ''API Error without request context''
              [(''requestId'', S rid), (''error'', S m)]]\<rparr>)) \<and>
   (fst (logResponse env ext h now response lg) = None) =
     (map_of (activeRequests lg) (requestId response) = None \<or>
      (\<exists>body h1 responseData.
         preparedBody env ext h (responseBody response) = Inr (body, h1) \<and>
         apiResponseData ext h1 body = Inr responseData)) \<and>
   (\<not> truthy (responseBody response) \<longrightarrow>
      fst (logResponse env ext h now response lg) = None) \<and>
   fst (logError now rid (ErrValue m) lg) = None \<and>
   (fst (logResponse env ext h now response lg) = None \<longrightarrow>
      map_of (activeRequests (snd (logResponse env ext h now response lg)))
        (requestId response) = None) \<and>
   map_of (activeRequests (snd (logError now rid (ErrValue m) lg))) rid = None \<and>
   (\<forall>k. k \<noteq> requestId response \<longrightarrow>
      map_of (activeRequests (snd (logResponse env ext h now response lg))) k =
        map_of (activeRequests lg) k) \<and>
   (\<forall>k. k \<noteq> rid \<longrightarrow>
      map_of (activeRequests (snd (logError now rid err lg))) k = map_of (activeRequests lg) k) \<and>
   (fst (logResponse env ext h now response lg) = None \<and>
    requestId response' = requestId response \<longrightarrow>
      logResponse env' ext' h' now' response' (snd (logResponse env ext h now response lg)) =
        (None,
         (snd (logResponse env ext h now response lg))\<lparr>loggerCalls :=
            loggerCalls (snd (logResponse env ext h now response lg)) @
              [LoggerWarn (''No request context found for response: '' @ requestId response)
                 []]\<rparr>) \<and>
      logError now' (requestId response) (ErrValue m)
          (snd (logResponse env ext h now response lg)) =
        (None,
         (snd (logResponse env ext h now response lg))\<lparr>loggerCalls :=
            loggerCalls (snd (logResponse env ext h now response lg)) @
              [LoggerError ''API Error without request context''
                 [(''requestId'', S (requestId response)), (''error'', S m)]]\<rparr>)) \<and>
   (requestId response' = rid \<longrightarrow>
      logResponse env' ext' h' now' response' (snd (logError now rid (ErrValue m) lg)) =
        (None,
         (snd (logError now rid (ErrValue m) lg))\<lparr>loggerCalls :=
            loggerCalls (snd (logError now rid (ErrValue m) lg)) @
              [LoggerWarn (''No request context found for response: '' @ rid) []]\<rparr>)) \<and>
   logError now' rid (ErrValue m') (snd (logError now rid (ErrValue m) lg)) =
     (None,
      (snd (logError now rid (ErrValue m) lg))\<lparr>loggerCalls :=
         loggerCalls (snd (logError now rid (ErrValue m) lg)) @
           [LoggerError ''API Error without request context''
              [(''requestId'', S rid), (''error'', S m')]]\<rparr>) \<and>
   distinct (map fst (activeRequests newApiLogger)) \<and>
   (distinct (map fst (activeRequests lg)) \<longrightarrow>
      distinct (map fst (activeRequests (snd (logRequest env now generated request lg)))) \<and>
      distinct (map fst (activeRequests (snd (logResponse env ext h now response lg)))) \<and>
      distinct (map fst (activeRequests (snd (logError now rid err lg)))))"
proof -
  let ?r = "logResponse env ext h now response lg"
  let ?e = "logError now rid (ErrValue m) lg"
  have iff: "(fst ?r = None) =
     (map_of (activeRequests lg) (requestId response) = None \<or>
      (\<exists>body h1 responseData.
         preparedBody env ext h (responseBody response) = Inr (body, h1) \<and>
         apiResponseData ext h1 body = Inr responseData))"
    by (rule logResponse_returns_iff)
  have ret: "\<not> truthy (responseBody response) \<longrightarrow> fst ?r = None"
    using logResponse_no_body [of response env ext h now lg] by blast
  have rete: "fst ?e = None"
    by (simp add: logError_outcome)
  have a: "fst ?r = None \<longrightarrow> map_of (activeRequests (snd ?r)) (requestId response) = None"
    by (simp add: logResponse_entries AList.delete_conv)
  have b: "map_of (activeRequests (snd ?e)) rid = None"
    by (simp add: logError_entries AList.delete_conv)
  have oth: "\<forall>k. k \<noteq> requestId response \<longrightarrow>
      map_of (activeRequests (snd ?r)) k = map_of (activeRequests lg) k"
    by (simp add: logResponse_entries AList.delete_conv)
  have othe: "\<forall>k. k \<noteq> rid \<longrightarrow>
      map_of (activeRequests (snd (logError now rid err lg))) k = map_of (activeRequests lg) k"
    by (cases err) (simp_all add: logError_entries AList.delete_conv)
  have c: "fst ?r = None \<and> requestId response' = requestId response \<longrightarrow>
      logResponse env' ext' h' now' response' (snd ?r) =
        (None,
         (snd ?r)\<lparr>loggerCalls := loggerCalls (snd ?r) @
            [LoggerWarn (''No request context found for response: '' @ requestId response)
               []]\<rparr>) \<and>
      logError now' (requestId response) (ErrValue m) (snd ?r) =
        (None,
         (snd ?r)\<lparr>loggerCalls := loggerCalls (snd ?r) @
            [LoggerError ''API Error without request context''
               [(''requestId'', S (requestId response)), (''error'', S m)]]\<rparr>)"
  proof
    assume h: "fst ?r = None \<and> requestId response' = requestId response"
    with a have n: "map_of (activeRequests (snd ?r)) (requestId response') = None" by simp
    from logResponse_unknown [OF n, of env' ext' h' now'] h
    have 1: "logResponse env' ext' h' now' response' (snd ?r) =
        (None,
         (snd ?r)\<lparr>loggerCalls := loggerCalls (snd ?r) @
            [LoggerWarn (''No request context found for response: '' @ requestId response)
               []]\<rparr>)"
      by simp
    from n h have n': "map_of (activeRequests (snd ?r)) (requestId response) = None" by simp
    from logError_unknown [OF n', of now' m] 1
    show "logResponse env' ext' h' now' response' (snd ?r) =
        (None,
         (snd ?r)\<lparr>loggerCalls := loggerCalls (snd ?r) @
            [LoggerWarn (''No request context found for response: '' @ requestId response)
               []]\<rparr>) \<and>
      logError now' (requestId response) (ErrValue m) (snd ?r) =
        (None,
         (snd ?r)\<lparr>loggerCalls := loggerCalls (snd ?r) @
            [LoggerError ''API Error without request context''
               [(''requestId'', S (requestId response)), (''error'', S m)]]\<rparr>)"
      by simp
  qed
  have e: "requestId response' = rid \<longrightarrow>
      logResponse env' ext' h' now' response' (snd ?e) =
        (None,
         (snd ?e)\<lparr>loggerCalls := loggerCalls (snd ?e) @
            [LoggerWarn (''No request context found for response: '' @ rid) []]\<rparr>)"
  proof
    assume h: "requestId response' = rid"
    with b have n: "map_of (activeRequests (snd ?e)) (requestId response') = None" by simp
    from logResponse_unknown [OF n, of env' ext' h' now'] h
    show "logResponse env' ext' h' now' response' (snd ?e) =
        (None,
         (snd ?e)\<lparr>loggerCalls := loggerCalls (snd ?e) @
            [LoggerWarn (''No request context found for response: '' @ rid) []]\<rparr>)"
      by simp
  qed
  have f: "logError now' rid (ErrValue m') (snd ?e) =
     (None,
      (snd ?e)\<lparr>loggerCalls := loggerCalls (snd ?e) @
         [LoggerError ''API Error without request context''
            [(''requestId'', S rid), (''error'', S m')]]\<rparr>)"
    using b by (rule logError_unknown)
  have g: "distinct (map fst (activeRequests newApiLogger))"
    by (simp add: newApiLogger_def)
  have d: "distinct (map fst (activeRequests lg)) \<longrightarrow>
      distinct (map fst (activeRequests (snd (logRequest env now generated request lg)))) \<and>
      distinct (map fst (activeRequests (snd ?r))) \<and>
      distinct (map fst (activeRequests (snd (logError now rid err lg))))"
    by (simp add: logRequest_distinct logResponse_distinct logError_distinct)
  have u1: "map_of (activeRequests lg) (requestId response) = None \<longrightarrow>
      ?r = (None,
         lg\<lparr>loggerCalls := loggerCalls lg @
           [LoggerWarn (''No request context found for response: '' @ requestId response) []]\<rparr>)"
    by (simp add: logResponse_unknown)
  have u2: "map_of (activeRequests lg) rid = None \<longrightarrow>
      ?e = (None,
         lg\<lparr>loggerCalls := loggerCalls lg @
           [LoggerError ''API Error without request context''
              [(''requestId'', S rid), (''error'', S m)]]\<rparr>)"
    by (simp add: logError_unknown)
  from u1 u2 iff ret rete a b oth othe c e f g d show ?thesis by blast
qed

lemma exampleBodyResponse_run:
  "logResponse ''development'' exampleStringify loginHeap 5 (exampleBodyResponse ''r1'')
       exampleTracker =
     (None,
      \<lparr>activeRequests = [(''r2'', exampleContext ''r2'' 200000)],
       loggerCalls = [LoggerApiResponse ''GET'' ''/drama'' 200 (VStr ''{}'') ''r1'' 12]\<rparr>)"
  by (simp add: logResponse_def exampleTracker_def exampleBodyResponse_def exampleResponse_def
      exampleContext_def slowRequestThreshold_def preparedBody_def logResponseBodies_def
      maxResponseBodyLength_def loginHeap_run truncateResponseBody_def bodyString_def
      apiResponseData_def jsonStringify_def exampleStringify_def Let_def)

theorem logResponse_logError_lifecycle_witness:
  "map_of (activeRequests exampleTracker) ''r7'' = None \<and>
   requestId (exampleResponse ''r7'') = ''r7'' \<and>
   \<not> truthy (responseBody (exampleResponse ''r7'')) \<and>
   distinct (map fst (activeRequests exampleTracker)) \<and>
   logResponse ''production'' exampleStringify loginHeap 5 (exampleResponse ''r7'')
       exampleTracker =
     (None,
      exampleTracker\<lparr>loggerCalls :=
        [LoggerWarn ''No request context found for response: r7'' []]\<rparr>) \<and>
   logError 5 ''r7'' (ErrValue ''boom'') exampleTracker =
     (None,
      exampleTracker\<lparr>loggerCalls :=
        [LoggerError ''API Error without request context''
           [(''requestId'', S ''r7''), (''error'', S ''boom'')]]\<rparr>) \<and>
   map_of (activeRequests exampleTracker) ''r1'' \<noteq> None \<and>
   fst (logResponse ''development'' exampleStringify loginHeap 5 (exampleBodyResponse ''r1'')
          exampleTracker) = None \<and>
   map_of (activeRequests (snd (logResponse ''development'' exampleStringify loginHeap 5
          (exampleBodyResponse ''r1'') exampleTracker))) ''r1'' = None \<and>
   map_of (activeRequests (snd (logResponse ''development'' exampleStringify loginHeap 5
          (exampleBodyResponse ''r1'') exampleTracker))) ''r2'' =
     Some (exampleContext ''r2'' 200000) \<and>
   distinct (map fst (activeRequests (snd (logResponse ''development'' exampleStringify
          loginHeap 5 (exampleBodyResponse ''r1'') exampleTracker)))) \<and>
   logResponse ''development'' exampleStringify loginHeap 9 (exampleBodyResponse ''r1'')
       (snd (logResponse ''development'' exampleStringify loginHeap 5
          (exampleBodyResponse ''r1'') exampleTracker)) =
     (None,
      \<lparr>activeRequests = [(''r2'', exampleContext ''r2'' 200000)],
       loggerCalls = [LoggerApiResponse ''GET'' ''/drama'' 200 (VStr ''{}'') ''r1'' 12,
                      LoggerWarn ''No request context found for response: r1'' []]\<rparr>) \<and>
   map_of (activeRequests (snd (logError 5 ''r1'' (ErrValue ''boom'') exampleTracker))) ''r1'' =
     None"
  using logResponse_logError_lifecycle
      [where lg = exampleTracker and response = "exampleResponse ''r7''"
         and env = "''production''" and ext = exampleStringify and h = loginHeap and now = 5
         and rid = "''r7''" and m = "''boom''" and err = "ErrValue ''boom''"
         and response' = "exampleResponse ''r7''" and env' = "''production''"
         and ext' = exampleStringify and h' = loginHeap and now' = 9 and m' = "''bang''"
         and generated = "''g1''" and request = "exampleContext ''r7'' 5"]
    logResponse_logError_lifecycle
      [where lg = exampleTracker and response = "exampleBodyResponse ''r1''"
         and env = "''development''" and ext = exampleStringify and h = loginHeap and now = 5
         and rid = "''r1''" and m = "''boom''" and err = "ErrValue ''boom''"
         and response' = "exampleBodyResponse ''r1''" and env' = "''development''"
         and ext' = exampleStringify and h' = loginHeap and now' = 9 and m' = "''bang''"
         and generated = "''g1''" and request = "exampleContext ''r1'' 5"]
  by (simp add: exampleBodyResponse_run)
     (simp add: exampleTracker_def exampleResponse_def exampleBodyResponse_def
        exampleContext_def)

text \<open>
  On a tracker without the id, \<open>logError\<close> logs at severity ERROR: not a warning.
\<close>

theorem logError_unknown_logs_error_level:
  "map_of (activeRequests newApiLogger) ''r9'' = None \<and>
   logError 0 ''r9'' (ErrValue ''boom'') newApiLogger =
     (None,
      newApiLogger\<lparr>loggerCalls :=
        [LoggerError ''API Error without request context''
           [(''requestId'', S ''r9''), (''error'', S ''boom'')]]\<rparr>) \<and>
   callLevel (last (loggerCalls (snd (logError 0 ''r9'' (ErrValue ''boom'') newApiLogger)))) =
     ERROR \<and>
   callLevel (last (loggerCalls (snd (logError 0 ''r9'' (ErrValue ''boom'') newApiLogger)))) \<noteq>
     WARN"
  by (simp add: logError_def newApiLogger_def)

lemma cleanupLoop_closed_form:
  "cleanupLoop f now es (c, lg) =
     (c + length (filter (\<lambda>e. timestamp (snd e) < f) es),
      lg\<lparr>loggerCalls := loggerCalls lg @
             map (staleWarning now) (filter (\<lambda>e. timestamp (snd e) < f) es),
          activeRequests :=
             fold (\<lambda>e. AList.delete (fst e)) (filter (\<lambda>e. timestamp (snd e) < f) es)
               (activeRequests lg)\<rparr>)"
proof (induction es arbitrary: c lg)
  case Nil
  then show ?case by simp
next
  case (Cons e es)
  obtain rid ctx where e: "e = (rid, ctx)" by (cases e)
  show ?case
    by (simp add: e Cons.IH staleWarning_def)
qed

lemma fold_delete_filter:
  "fold (\<lambda>e. AList.delete (fst e)) ds al = filter (\<lambda>e. fst e \<notin> fst ` set ds) al"
proof (induction ds arbitrary: al)
  case Nil
  then show ?case by simp
next
  case (Cons d ds)
  have "AList.delete (fst d) al = filter (\<lambda>e. fst e \<noteq> fst d) al"
    by (simp add: AList.delete_eq case_prod_unfold eq_commute)
  then show ?case
    by (simp add: Cons.IH)
qed

lemma distinct_keys_filter:
  assumes "distinct (map fst al)"
  shows "filter (\<lambda>e. fst e \<notin> fst ` set (filter P al)) al = filter (\<lambda>e. \<not> P e) al"
proof (rule filter_cong[OF refl])
  fix e assume e: "e \<in> set al"
  have "fst e \<in> fst ` set (filter P al) \<longleftrightarrow> P e"
  proof
    assume "fst e \<in> fst ` set (filter P al)"
    then obtain e' where e': "e' \<in> set al" "P e'" "fst e' = fst e" by auto
    with assms e have "e' = e" by (metis eq_key_imp_eq_value prod.collapse)
    with e' show "P e" by simp
  next
    assume "P e"
    with e show "fst e \<in> fst ` set (filter P al)" by auto
  qed
  then show "(fst e \<notin> fst ` set (filter P al)) = (\<not> P e)" by simp
qed

lemma cleanupStaleRequests_closed_form:
  assumes "distinct (map fst (activeRequests lg))"
  shows "cleanupStaleRequests now lg =
     (length (filter (\<lambda>e. timestamp (snd e) < now - 300000) (activeRequests lg)),
      lg\<lparr>loggerCalls := loggerCalls lg @
             map (staleWarning now)
               (filter (\<lambda>e. timestamp (snd e) < now - 300000) (activeRequests lg)),
          activeRequests :=
             filter (\<lambda>e. \<not> timestamp (snd e) < now - 300000) (activeRequests lg)\<rparr>)"
  using distinct_keys_filter [OF assms, of "\<lambda>e. timestamp (snd e) < now - 300000"]
  by (simp add: cleanupStaleRequests_def cleanupLoop_closed_form fold_delete_filter)

lemma statsLoop_oldest:
  "statsLoop es (b, t, ol) = (b', t', ol') \<Longrightarrow> ol' = ol \<or> ol' \<in> Some ` fst ` set es"
proof (induction es arbitrary: b t ol)
  case Nil
  then show ?case by simp
next
  case (Cons e es)
  obtain rid ctx where e: "e = (rid, ctx)" by (cases e)
  from Cons.prems show ?case
    unfolding e by (auto simp: Let_def split: if_splits dest!: Cons.IH)
qed

lemma statsLoop_byMethod:
  "statsLoop es (b, t, ol) = (b', t', ol') \<Longrightarrow>
   map_of b' m =
     (if map_of b m = None \<and> filter (\<lambda>e. httpMethod (snd e) = m) es = [] then None
      else Some ((case map_of b m of Some n \<Rightarrow> n | None \<Rightarrow> 0) +
                  length (filter (\<lambda>e. httpMethod (snd e) = m) es)))"
proof (induction es arbitrary: b t ol)
  case Nil
  then show ?case by (auto split: option.splits)
next
  case (Cons e es)
  obtain rid ctx where e: "e = (rid, ctx)" by (cases e)
  from Cons.prems show ?case
    unfolding e
    by (auto simp: Let_def AList.update_conv' split: if_splits option.splits dest!: Cons.IH)
qed

lemma stats_total: "total (getActiveRequestsStats now lg) = length (activeRequests lg)"
  by (simp add: getActiveRequestsStats_def Let_def split: prod.splits)

lemma stats_oldest:
  "oldestRequest (getActiveRequestsStats now lg) = Some rid \<Longrightarrow>
   rid \<in> fst ` set (activeRequests lg)"
  by (auto simp: getActiveRequestsStats_def Let_def split: prod.splits dest!: statsLoop_oldest)

lemma stats_byMethod:
  "map_of (byMethod (getActiveRequestsStats now lg)) m =
     (if filter (\<lambda>e. httpMethod (snd e) = m) (activeRequests lg) = [] then None
      else Some (length (filter (\<lambda>e. httpMethod (snd e) = m) (activeRequests lg))))"
  by (auto simp: getActiveRequestsStats_def Let_def split: prod.splits dest!: statsLoop_byMethod[where m = m])


lemma staleWarning_level: "callLevel (staleWarning now e) = WARN"
  by (simp add: staleWarning_def)

text \<open>
  C9. On a tracker (the ids of a \<open>Map\<close> are pairwise distinct), the sweep at time \<open>now\<close>
  keeps exactly the entries that are not older than five minutes, in their order, logs
  one warning (severity WARN) for each entry evicted, in the order of the entries, and
  returns the number evicted. Every entry left is at most five minutes old. An evicted
  id has no entry afterwards and is not the \<open>oldestRequest\<close> of the statistics; the
  total of the statistics drops by the number evicted, and \<open>byMethod\<close> counts the
  entries left. Before the sweep the statistics count every entry, stale or not, in
  \<open>total\<close> and in \<open>byMethod\<close>.
\<close>

theorem cleanupStaleRequests_sweep:
  assumes "distinct (map fst (activeRequests lg))"
  shows
    "activeRequests (snd (cleanupStaleRequests now lg)) =
       filter (\<lambda>e. \<not> timestamp (snd e) < now - 5 * 60 * 1000) (activeRequests lg) \<and>
     loggerCalls (snd (cleanupStaleRequests now lg)) =
       loggerCalls lg @
       map (staleWarning now)
         (filter (\<lambda>e. timestamp (snd e) < now - 5 * 60 * 1000) (activeRequests lg)) \<and>
     (\<forall>e. callLevel (staleWarning now e) = WARN) \<and>
     fst (cleanupStaleRequests now lg) =
       length (filter (\<lambda>e. timestamp (snd e) < now - 5 * 60 * 1000) (activeRequests lg)) \<and>
     (\<forall>e\<in>set (activeRequests (snd (cleanupStaleRequests now lg))).
        now - timestamp (snd e) \<le> 5 * 60 * 1000) \<and>
     (\<forall>e\<in>set (activeRequests lg). timestamp (snd e) < now - 5 * 60 * 1000 \<longrightarrow>
        map_of (activeRequests (snd (cleanupStaleRequests now lg))) (fst e) = None \<and>
        oldestRequest (getActiveRequestsStats now' (snd (cleanupStaleRequests now lg)))
          \<noteq> Some (fst e)) \<and>
     total (getActiveRequestsStats now' lg) = length (activeRequests lg) \<and>
     total (getActiveRequestsStats now' (snd (cleanupStaleRequests now lg))) =
       total (getActiveRequestsStats now' lg) - fst (cleanupStaleRequests now lg) \<and>
     (\<forall>m. map_of (byMethod (getActiveRequestsStats now' lg)) m =
        (if filter (\<lambda>e. httpMethod (snd e) = m) (activeRequests lg) = [] then None
         else Some (length (filter (\<lambda>e. httpMethod (snd e) = m) (activeRequests lg))))) \<and>
     (\<forall>m. map_of (byMethod (getActiveRequestsStats now' (snd (cleanupStaleRequests now lg)))) m =
        (if filter (\<lambda>e. httpMethod (snd e) = m \<and> \<not> timestamp (snd e) < now - 5 * 60 * 1000)
              (activeRequests lg) = [] then None
         else Some (length (filter
                (\<lambda>e. httpMethod (snd e) = m \<and> \<not> timestamp (snd e) < now - 5 * 60 * 1000)
                (activeRequests lg)))))"
proof -
  let ?st = "\<lambda>e :: string \<times> ApiLogContext. timestamp (snd e) < now - 5 * 60 * 1000"
  let ?after = "snd (cleanupStaleRequests now lg)"
  have cf: "cleanupStaleRequests now lg =
     (length (filter ?st (activeRequests lg)),
      lg\<lparr>loggerCalls := loggerCalls lg @ map (staleWarning now) (filter ?st (activeRequests lg)),
          activeRequests := filter (\<lambda>e. \<not> ?st e) (activeRequests lg)\<rparr>)"
    using cleanupStaleRequests_closed_form [OF assms, of now] by simp
  have left: "activeRequests ?after = filter (\<lambda>e. \<not> ?st e) (activeRequests lg)"
    by (simp add: cf)
  have calls: "loggerCalls ?after =
      loggerCalls lg @ map (staleWarning now) (filter ?st (activeRequests lg))"
    by (simp add: cf)
  have count: "fst (cleanupStaleRequests now lg) = length (filter ?st (activeRequests lg))"
    by (simp add: cf)
  have young: "\<forall>e\<in>set (activeRequests ?after). now - timestamp (snd e) \<le> 5 * 60 * 1000"
    unfolding left by auto
  have gone: "map_of (activeRequests ?after) (fst e) = None \<and>
        oldestRequest (getActiveRequestsStats now' ?after) \<noteq> Some (fst e)"
    if e: "e \<in> set (activeRequests lg)" and s: "?st e" for e
  proof -
    have notin: "fst e \<notin> fst ` set (activeRequests ?after)"
    proof
      assume "fst e \<in> fst ` set (activeRequests ?after)"
      then obtain e' where e': "e' \<in> set (activeRequests lg)" "\<not> ?st e'" "fst e' = fst e"
        unfolding left by auto
      with assms e have "e' = e" by (metis eq_key_imp_eq_value prod.collapse)
      with e' s show False by simp
    qed
    then have "map_of (activeRequests ?after) (fst e) = None"
      by (simp add: map_of_eq_None_iff)
    moreover have "oldestRequest (getActiveRequestsStats now' ?after) \<noteq> Some (fst e)"
      using notin stats_oldest by blast
    ultimately show ?thesis by simp
  qed
  have before: "total (getActiveRequestsStats now' lg) = length (activeRequests lg)"
    by (rule stats_total)
  have tot: "total (getActiveRequestsStats now' ?after) =
       total (getActiveRequestsStats now' lg) - fst (cleanupStaleRequests now lg)"
    using sum_length_filter_compl [of ?st "activeRequests lg"]
    by (simp add: stats_total left count)
  have bm: "\<forall>m. map_of (byMethod (getActiveRequestsStats now' lg)) m =
        (if filter (\<lambda>e. httpMethod (snd e) = m) (activeRequests lg) = [] then None
         else Some (length (filter (\<lambda>e. httpMethod (snd e) = m) (activeRequests lg))))"
    by (simp add: stats_byMethod)
  have bm': "\<forall>m. map_of (byMethod (getActiveRequestsStats now' ?after)) m =
        (if filter (\<lambda>e. httpMethod (snd e) = m \<and> \<not> ?st e) (activeRequests lg) = [] then None
         else Some (length (filter (\<lambda>e. httpMethod (snd e) = m \<and> \<not> ?st e) (activeRequests lg))))"
    by (simp add: stats_byMethod left conj_commute)
  show ?thesis
    using left calls count young gone before tot bm bm' staleWarning_level
    by (intro conjI ballI allI impI) blast+
qed

lemma exampleTracker_sweep:
  "cleanupStaleRequests 400000 exampleTracker =
     (1, \<lparr>activeRequests = [(''r2'', exampleContext ''r2'' 200000)],
          loggerCalls = [LoggerWarn ''Cleaning up stale request: GET /drama''
                           [(''requestId'', S ''r1''), (''age'', N 400000)]]\<rparr>)"
  by (simp add: cleanupStaleRequests_def exampleTracker_def exampleContext_def AList.delete_eq)

theorem cleanupStaleRequests_sweep_witness:
  "distinct (map fst (activeRequests exampleTracker)) \<and>
   (''r1'', exampleContext ''r1'' 0) \<in> set (activeRequests exampleTracker) \<and>
   timestamp (exampleContext ''r1'' 0) < 400000 - 5 * 60 * 1000 \<and>
   fst (cleanupStaleRequests 400000 exampleTracker) = 1 \<and>
   activeRequests (snd (cleanupStaleRequests 400000 exampleTracker)) =
     [(''r2'', exampleContext ''r2'' 200000)] \<and>
   total (getActiveRequestsStats 400000 exampleTracker) = 2 \<and>
   total (getActiveRequestsStats 400000 (snd (cleanupStaleRequests 400000 exampleTracker))) = 1 \<and>
   oldestRequest (getActiveRequestsStats 400000 exampleTracker) = Some ''r1'' \<and>
   oldestRequest (getActiveRequestsStats 400000 (snd (cleanupStaleRequests 400000 exampleTracker)))
     = Some ''r2''"
  using cleanupStaleRequests_sweep [of exampleTracker 400000 400000]
  by (simp add: exampleTracker_sweep getActiveRequestsStats_def)
     (simp add: exampleTracker_def exampleContext_def)

end
